theory Spec2Isabelle
  imports Main
begin

section \<open>The redraw scheduler of src/internal/drawImage.js\<close>

text \<open>
  The module keeps three pieces of module-level state (\<open>rafId\<close>, \<open>rafStopTime\<close>,
  \<open>elementsDrawMap\<close>) and a flag on the function \<open>registerVisibilityChange\<close>. It talks to
  the host through \<open>requestAnimationFrame\<close>, \<open>cancelAnimationFrame\<close>, \<open>performance.now\<close>,
  \<open>Date.now\<close>, \<open>document\<close>, and to the rest of the library through \<open>getEnabledElement\<close>,
  \<open>triggerEvent\<close> and \<open>drawImageSync\<close>. The embedding threads one record, \<open>world\<close>, through
  every function: the module's variables, the part of the host they act on, and a
  chronological trace of the calls made to the collaborators.

  Times are whole milliseconds. The collaborators act as far as this module can see them:
  \<open>getEnabledElement\<close> looks an element up or throws, \<open>triggerEvent\<close> is recorded in the trace
  (listeners of the event are not modelled), \<open>drawImageSync\<close> returns or throws and may
  change the enabled element it draws and take time, and a draw callback may call
  \<open>drawImage\<close>, \<open>addDrawCallback\<close> and \<open>removeDrawCallback\<close>, take time and throw.
\<close>

subsection \<open>Data\<close>

type_synonym element = nat
type_synonym ref = nat
type_synonym handle = nat

text \<open>
  An enabled element is a JavaScript object; \<open>None\<close> in a field is \<open>undefined\<close>/\<open>null\<close>
  (\<open>imageOf\<close> is its field \<open>image\<close>).
  Objects live in a store and are passed by reference, because \<open>drawImage\<close> writes the
  \<open>invalid\<close> field of the object it is given and \<open>step\<close> reads that field from the object
  \<open>getEnabledElement\<close> returns.
\<close>

record enabled_element =
  element :: "element option"
  canvas :: "nat option"
  imageOf :: "nat option"
  layers :: "nat list option"
  invalid :: bool

text \<open>
  A draw callback is a JavaScript function. Its identity is \<open>cb_id\<close>; what it does when
  called is a finite script of calls back into this module (the three exported functions
  \<open>drawImage\<close>, \<open>addDrawCallback\<close>, \<open>removeDrawCallback\<close>) and of waiting, followed by a
  normal return or a throw. The callbacks that a script adds or removes are part of the
  script, and \<open>RemoveSelf\<close> is \<open>removeDrawCallback\<close> applied to the callback that is running.
  So a callback can remove itself but cannot add itself again: in JavaScript a callback
  that removes itself from the set being walked and adds itself again is visited again,
  without end, and such callbacks are not part of the model. (A value that is not callable
  behaves as \<open>Callback n [] True\<close>: calling it throws.)
\<close>

datatype call =
    DrawImage "ref option" bool
  | Elapse nat
  | AddDrawCallback "element option" callback
  | RemoveDrawCallback "element option" callback
  | RemoveSelf "element option"
and callback = Callback (cb_id: nat) (body: "call list") (throws: bool)

text \<open>
  The \<open>Set\<close> of callbacks of an entry is the list of its members in insertion order,
  as ECMAScript defines it: \<open>delete\<close> puts a hole (\<open>None\<close>) where the member was, \<open>add\<close>
  appends, and \<open>forEach\<close> walks the positions of the list as it is when it gets to them,
  skipping the holes.
\<close>

record entry =
  needsRedraw :: bool
  callbacks :: "callback option list"

datatype exn = TypeError | RenderError | CallbackError

datatype event =
    PreRender element ref nat
  | Render ref bool
  | Invoke callback ref
  | Raf handle
  | Cancel handle

record world =
  rafId :: "handle option"
  rafStopTime :: "nat option"
  elementsDrawMap :: "(element option \<times> entry) list"
  registered :: bool
  perfNow :: nat
  dateNow :: nat
  objects :: "ref \<Rightarrow> enabled_element"
  enabled :: "element \<Rightarrow> ref option"
  frames :: "handle list"
  lastHandle :: handle
  listeners :: "string list"
  trace :: "event list"

text \<open>
  The part of the environment that does not change: which of the three spellings of the
  page-visibility property \<open>document\<close> has, and the pixel renderer. \<open>drawImageSync h o f\<close>
  is \<open>None\<close> when the renderer throws, and otherwise the enabled element as the renderer
  leaves it together with the time, in milliseconds, that the rendering took.
\<close>

record host =
  hasHidden :: bool
  hasMsHidden :: bool
  hasWebkitHidden :: bool
  drawImageSync :: "enabled_element \<Rightarrow> bool \<Rightarrow> (enabled_element \<times> nat) option"

definition rafStopMaxTime :: nat where
  "rafStopMaxTime = 100"

definition init :: "(ref \<Rightarrow> enabled_element) \<Rightarrow> (element \<Rightarrow> ref option) \<Rightarrow> world" where
  "init os en = \<lparr> rafId = None, rafStopTime = None, elementsDrawMap = [], registered = False,
     perfNow = 0, dateNow = 0, objects = os, enabled = en, frames = [], lastHandle = 0,
     listeners = [], trace = [] \<rparr>"

subsection \<open>The host's primitives\<close>

text \<open>
  Modelled from the spec: \<open>requestAnimationFrame.js\<close> is not among the sources. The spec's
  \<open>scheduleOnceBeforeNextRefresh(callback) -> Handle\<close> queues one invocation of the callback
  (here always \<open>step\<close>) and returns its handle; handles are positive integers, as those
  of \<open>window.requestAnimationFrame\<close> and \<open>window.setTimeout\<close> are.
\<close>

definition requestAnimationFrame :: "world \<Rightarrow> handle \<times> world" where
  "requestAnimationFrame w =
     (let h = Suc (lastHandle w)
      in (h, w\<lparr>frames := frames w @ [h], lastHandle := h, trace := trace w @ [Raf h]\<rparr>))"

definition cancelAnimationFrame :: "handle \<Rightarrow> world \<Rightarrow> world" where
  "cancelAnimationFrame h w =
     w\<lparr>frames := removeAll h (frames w), trace := trace w @ [Cancel h]\<rparr>"

text \<open>JavaScript truthiness of a value that is \<open>null\<close> or a number.\<close>

fun truthy :: "nat option \<Rightarrow> bool" where
  "truthy None = False"
| "truthy (Some n) = (n \<noteq> 0)"

definition elapse :: "nat \<Rightarrow> world \<Rightarrow> world" where
  "elapse d w = w\<lparr>perfNow := perfNow w + d, dateNow := dateNow w + d\<rparr>"

subsection \<open>The map of elements\<close>

text \<open>
  A JavaScript \<open>Map\<close> iterates in insertion order and \<open>forEach\<close> also visits the entries
  added while it runs, so the map is a list of pairs in insertion order with distinct keys.
  \<open>modify k f\<close> is a write to the entry that \<open>get(k)\<close> returns.
\<close>

definition has :: "(element option \<times> entry) list \<Rightarrow> element option \<Rightarrow> bool" where
  "has m k = (k \<in> fst ` set m)"

definition get :: "(element option \<times> entry) list \<Rightarrow> element option \<Rightarrow> entry option" where
  "get m k = map_of m k"

fun modify ::
  "element option \<Rightarrow> (entry \<Rightarrow> entry) \<Rightarrow> (element option \<times> entry) list \<Rightarrow> (element option \<times> entry) list" where
  "modify k f [] = []"
| "modify k f ((k', e) # m) = (if k' = k then (k', f e) # m else (k', e) # modify k f m)"

definition ensure :: "element option \<Rightarrow> (element option \<times> entry) list \<Rightarrow> (element option \<times> entry) list" where
  "ensure k m = (if has m k then m else m @ [(k, \<lparr>needsRedraw = False, callbacks = []\<rparr>)])"

text \<open>
  \<open>Set.prototype.add\<close>, \<open>delete\<close> and \<open>size\<close>; \<open>members\<close> are the callbacks of the
  set, in insertion order.
\<close>

definition set_add :: "callback \<Rightarrow> callback option list \<Rightarrow> callback option list" where
  "set_add f cs = (if Some f \<in> set cs then cs else cs @ [Some f])"

definition set_delete :: "callback \<Rightarrow> callback option list \<Rightarrow> callback option list" where
  "set_delete f cs = map (\<lambda>x. if x = Some f then None else x) cs"

fun members :: "callback option list \<Rightarrow> callback list" where
  "members [] = []"
| "members (None # cs) = members cs"
| "members (Some f # cs) = f # members cs"

definition set_size :: "callback option list \<Rightarrow> nat" where
  "set_size cs = length (members cs)"

subsection \<open>stopRaf and registerVisibilityChange\<close>

definition stopRaf :: "world \<Rightarrow> world" where
  "stopRaf w =
     (let w1 = (if truthy (rafId w) then cancelAnimationFrame (the (rafId w)) w else w)
      in w1\<lparr>rafId := None\<rparr>)"

definition visibilityChange :: "host \<Rightarrow> string option" where
  "visibilityChange h =
     (if hasHidden h then Some ''visibilitychange''
      else if hasMsHidden h then Some ''msvisibilitychange''
      else if hasWebkitHidden h then Some ''webkitvisibilitychange''
      else None)"

definition registerVisibilityChange :: "host \<Rightarrow> world \<Rightarrow> world" where
  "registerVisibilityChange h w =
     (if registered w then w
      else (let w1 = w\<lparr>registered := True\<rparr>
            in case visibilityChange h of
                 None \<Rightarrow> w1
               | Some name \<Rightarrow> w1\<lparr>listeners := listeners w1 @ [name]\<rparr>))"

text \<open>
  The listener that \<open>registerVisibilityChange\<close> installs; \<open>hidden\<close> is the value of
  \<open>document[hidden]\<close> when the event is delivered.
\<close>

definition onVisibilityChange :: "bool \<Rightarrow> world \<Rightarrow> world" where
  "onVisibilityChange hidden w =
     (let w1 = stopRaf w
      in if \<not> hidden
         then (let w2 = w1\<lparr>rafStopTime := Some (perfNow w1 + rafStopMaxTime)\<rparr>;
                   (h, w3) = requestAnimationFrame w2
               in w3\<lparr>rafId := Some h\<rparr>)
         else w1)"

subsection \<open>drawImage\<close>

definition schedule :: "ref \<Rightarrow> bool \<Rightarrow> world \<Rightarrow> world" where
  "schedule r invalidated w =
     (let el = element (objects w r);
          w1 = (if invalidated
                then w\<lparr>objects := (objects w)(r := (objects w r)\<lparr>invalid := True\<rparr>)\<rparr>
                else w);
          w2 = w1\<lparr>elementsDrawMap := ensure el (elementsDrawMap w1)\<rparr>;
          w3 = w2\<lparr>elementsDrawMap := modify el (\<lambda>e. e\<lparr>needsRedraw := True\<rparr>) (elementsDrawMap w2)\<rparr>;
          w4 = w3\<lparr>rafStopTime := Some (perfNow w3 + rafStopMaxTime)\<rparr>
      in if \<not> truthy (rafId w4)
         then (let (h, w5) = requestAnimationFrame w4 in w5\<lparr>rafId := Some h\<rparr>)
         else w4)"

text \<open>
  \<open>drawImage h w ee invalidated\<close>: \<open>ee\<close> is the reference passed (\<open>None\<close> for \<open>null\<close>). The
  result is the exception that reaches the caller, if any, and the world afterwards. The
  guard reads \<open>enabledElement.layers.length\<close> only when \<open>canvas\<close> is there and \<open>image\<close> is
  not; it throws a \<open>TypeError\<close> there if \<open>layers\<close> is \<open>undefined\<close>.
\<close>

definition drawImage :: "host \<Rightarrow> world \<Rightarrow> ref option \<Rightarrow> bool \<Rightarrow> exn option \<times> world" where
  "drawImage h w ee invalidated =
     (let w0 = registerVisibilityChange h w
      in case ee of
           None \<Rightarrow> (None, w0)
         | Some r \<Rightarrow>
             (let ob = objects w0 r
              in if canvas ob = None then (None, w0)
                 else if imageOf ob = None
                 then (case layers ob of
                         None \<Rightarrow> (Some TypeError, w0)
                       | Some ls \<Rightarrow>
                           if length ls < 1 then (None, w0)
                           else (None, schedule r invalidated w0))
                 else (None, schedule r invalidated w0)))"

subsection \<open>addDrawCallback and removeDrawCallback\<close>

definition addDrawCallback :: "world \<Rightarrow> element option \<Rightarrow> callback \<Rightarrow> world" where
  "addDrawCallback w el f =
     (if el = None then w
      else (let w1 = w\<lparr>elementsDrawMap := ensure el (elementsDrawMap w)\<rparr>
            in w1\<lparr>elementsDrawMap :=
                    modify el (\<lambda>e. e\<lparr>callbacks := set_add f (callbacks e)\<rparr>) (elementsDrawMap w1)\<rparr>))"

definition removeDrawCallback :: "world \<Rightarrow> element option \<Rightarrow> callback \<Rightarrow> world" where
  "removeDrawCallback w el f =
     (if el = None then w
      else (case get (elementsDrawMap w) el of
              None \<Rightarrow> w
            | Some e \<Rightarrow>
                w\<lparr>elementsDrawMap :=
                    modify el (\<lambda>e. e\<lparr>callbacks := set_delete f (callbacks e)\<rparr>) (elementsDrawMap w)\<rparr>))"

subsection \<open>step\<close>

text \<open>
  Calling a callback \<open>f\<close>: the trace records the call, the script runs up to the first call
  that throws, and after the script the callback throws if \<open>throws\<close> says so. The result
  is the exception that leaves the callback, if any.
\<close>

fun run_body :: "host \<Rightarrow> callback \<Rightarrow> call list \<Rightarrow> world \<Rightarrow> exn option \<times> world" where
  "run_body h f [] w = (None, w)"
| "run_body h f (Elapse d # cs) w = run_body h f cs (elapse d w)"
| "run_body h f (DrawImage ee iv # cs) w =
     (case drawImage h w ee iv of
        (Some err, w') \<Rightarrow> (Some err, w')
      | (None, w') \<Rightarrow> run_body h f cs w')"
| "run_body h f (AddDrawCallback el g # cs) w = run_body h f cs (addDrawCallback w el g)"
| "run_body h f (RemoveDrawCallback el g # cs) w = run_body h f cs (removeDrawCallback w el g)"
| "run_body h f (RemoveSelf el # cs) w = run_body h f cs (removeDrawCallback w el f)"

definition rafcb :: "host \<Rightarrow> ref \<Rightarrow> callback \<Rightarrow> world \<Rightarrow> exn option \<times> world" where
  "rafcb h r f w =
     (case run_body h f (body f) (w\<lparr>trace := trace w @ [Invoke f r]\<rparr>) of
        (Some err, w') \<Rightarrow> (Some err, w')
      | (None, w') \<Rightarrow> (if throws f then (Some CallbackError, w') else (None, w')))"

text \<open>
  Both loops of \<open>step\<close> walk a collection that the callbacks they call can extend: a
  callback can add callbacks to the set being walked, and entries to the map. They end
  all the same, because a script is finite and the callbacks it adds are part of it. The
  \<open>weight\<close> of a callback bounds what running it can add to the collections: one entry for
  each \<open>drawImage\<close>, one entry and one member for each \<open>addDrawCallback\<close>, and what the
  added callback adds in its turn.
\<close>

primrec weight :: "callback \<Rightarrow> nat" and weight_call :: "call \<Rightarrow> nat" where
  "weight (Callback n cs t) = Suc (sum_list (map weight_call cs))"
| "weight_call (DrawImage ee iv) = 1"
| "weight_call (Elapse d) = 0"
| "weight_call (AddDrawCallback el g) = Suc (Suc (weight g))"
| "weight_call (RemoveDrawCallback el g) = 0"
| "weight_call (RemoveSelf el) = 0"

fun slot_weight :: "callback option \<Rightarrow> nat" where
  "slot_weight None = 1"
| "slot_weight (Some f) = Suc (weight f)"

definition cost :: "callback option list \<Rightarrow> nat" where
  "cost cs = Suc (sum_list (map slot_weight cs))"

definition potential :: "nat \<Rightarrow> world \<Rightarrow> nat" where
  "potential i w = sum_list (map (\<lambda>(k, e). cost (callbacks e)) (drop i (elementsDrawMap w)))"

definition cbs :: "world \<Rightarrow> callback option list list" where
  "cbs w = map (\<lambda>(k, e). callbacks e) (elementsDrawMap w)"

text \<open>
  What is left to do when the loops are at position \<open>p\<close> of the set of the entry in position
  \<open>i\<close> of the map: the rest of that set and the entries after \<open>i\<close>. \<open>extends n\<close>: from one
  family of sets to the next, positions stay valid and what is left grows by \<open>n\<close> at most.
\<close>

definition load :: "nat \<Rightarrow> nat \<Rightarrow> callback option list list \<Rightarrow> nat" where
  "load i p css = sum_list (map cost (drop (Suc i) css)) + sum_list (map slot_weight (drop p (css ! i)))"

definition remaining :: "nat \<Rightarrow> nat \<Rightarrow> world \<Rightarrow> nat" where
  "remaining i p w = load i p (cbs w)"

definition extends :: "nat \<Rightarrow> callback option list list \<Rightarrow> callback option list list \<Rightarrow> bool" where
  "extends n css css' =
     (\<forall>i p. i < length css \<and> p \<le> length (css ! i) \<longrightarrow>
        i < length css' \<and> p \<le> length (css' ! i) \<and> load i p css' \<le> load i p css + n)"

lemma potential_cbs: "potential i w = sum_list (map cost (drop i (cbs w)))"
  by (simp add: potential_def cbs_def drop_map comp_def case_prod_unfold)

lemma extends_refl: "extends 0 css css"
  by (simp add: extends_def)

lemma extends_trans: "extends a x y \<Longrightarrow> extends b y z \<Longrightarrow> extends (a + b) x z"
  unfolding extends_def by (meson add_le_mono1 le_trans order_refl add.assoc[THEN eq_imp_le] ) 

lemma extends_mono: "extends a x y \<Longrightarrow> a \<le> b \<Longrightarrow> extends b x y"
  unfolding extends_def by (meson add_left_mono le_trans)

lemma extends_append: "extends (cost ys) css (css @ [ys])"
  by (auto simp: extends_def load_def nth_append)

lemma sum_list_map_update:
  assumes "k < length xs" "f y \<le> f (xs ! k) + (n::nat)"
  shows "sum_list (map f (xs[k := y])) \<le> sum_list (map f xs) + n"
proof -
  have "sum_list (map f (xs[k := y])) = sum_list (map f xs) + f y - f (xs ! k)"
    using assms(1) by (simp add: map_update sum_list_update)
  with assms(2) show ?thesis by simp
qed

lemma extends_update:
  assumes j: "j < length css" and len: "length (css ! j) \<le> length ys"
    and grow: "\<And>p. p \<le> length (css ! j) \<Longrightarrow>
        sum_list (map slot_weight (drop p ys)) \<le> sum_list (map slot_weight (drop p (css ! j))) + n"
  shows "extends n css (css[j := ys])"
  unfolding extends_def
proof (intro allI impI)
  fix i p assume a: "i < length css \<and> p \<le> length (css ! i)"
  have c: "cost ys \<le> cost (css ! j) + n" using grow[of 0] by (simp add: cost_def)
  have l: "load i p (css[j := ys]) \<le> load i p css + n"
  proof (cases "j \<le> i")
    case True
    then have d: "drop (Suc i) (css[j := ys]) = drop (Suc i) css" by (simp add: drop_update_cancel)
    show ?thesis
    proof (cases "j = i")
      case True
      with a j grow[of p] d show ?thesis by (simp add: load_def)
    next
      case False
      with d show ?thesis by (simp add: load_def)
    qed
  next
    case False
    then have ij: "Suc i \<le> j" "i \<noteq> j" by simp_all
    have "sum_list (map cost (drop (Suc i) (css[j := ys])))
          = sum_list (map cost ((drop (Suc i) css)[j - Suc i := ys]))"
      using ij(1) by (simp add: drop_update_swap)
    also have "\<dots> \<le> sum_list (map cost (drop (Suc i) css)) + n"
      using ij(1) j c by (intro sum_list_map_update) simp_all
    finally show ?thesis using ij(2) by (simp add: load_def)
  qed
  from a j len l show "i < length (css[j := ys]) \<and> p \<le> length (css[j := ys] ! i) \<and>
      load i p (css[j := ys]) \<le> load i p css + n"
    by (cases "i = j") simp_all
qed

lemma grow_set_add:
  "p \<le> length cs \<Longrightarrow>
   sum_list (map slot_weight (drop p (set_add g cs))) \<le> sum_list (map slot_weight (drop p cs)) + Suc (weight g)"
  by (simp add: set_add_def)

lemma grow_set_delete:
  "sum_list (map slot_weight (drop p (set_delete g cs))) \<le> sum_list (map slot_weight (drop p cs)) + 0"
proof -
  have "sum_list (map slot_weight (map (\<lambda>x. if x = Some g then None else x) (drop p cs)))
        \<le> sum_list (map slot_weight (drop p cs))"
    unfolding map_map by (rule sum_list_mono) (auto simp: comp_def)
  then show ?thesis by (simp add: set_delete_def drop_map)
qed

lemma modify_update:
  "has m k \<Longrightarrow> \<exists>j<length m. fst (m ! j) = k \<and> modify k f m = m[j := (k, f (snd (m ! j)))]"
proof (induction m)
  case Nil
  then show ?case by (simp add: has_def)
next
  case (Cons x m)
  obtain k' e where x: "x = (k', e)" by (cases x)
  show ?case
  proof (cases "k' = k")
    case True
    with x show ?thesis by (intro exI[of _ 0]) simp
  next
    case False
    with Cons x obtain j where "j < length m" "fst (m ! j) = k" "modify k f m = m[j := (k, f (snd (m ! j)))]"
      by (auto simp: has_def)
    with False x show ?thesis by (intro exI[of _ "Suc j"]) simp
  qed
qed

lemma cbs_modify_needsRedraw [simp]:
  "map (\<lambda>(k, e). callbacks e) (modify k (\<lambda>e. e\<lparr>needsRedraw := b\<rparr>) m) = map (\<lambda>(k, e). callbacks e) m"
  by (induction m) auto

lemma cbs_ensure:
  "\<exists>n\<le>1. map (\<lambda>(k, e). callbacks e) (ensure k m) = map (\<lambda>(k, e). callbacks e) m @ replicate n []"
  by (auto simp: ensure_def intro: exI[of _ 0] exI[of _ 1])

lemma cbs_requestAnimationFrame [simp]: "cbs (snd (requestAnimationFrame w)) = cbs w"
  by (simp add: requestAnimationFrame_def cbs_def Let_def)

lemma cbs_schedule: "\<exists>n\<le>1. cbs (schedule r iv w) = cbs w @ replicate n []"
  using cbs_ensure[of "element (objects w r)" "elementsDrawMap w"]
  by (auto simp: schedule_def cbs_def Let_def requestAnimationFrame_def split: prod.splits)

lemma cbs_registerVisibilityChange [simp]: "cbs (registerVisibilityChange h w) = cbs w"
  by (simp add: registerVisibilityChange_def cbs_def Let_def split: option.splits)

lemma cbs_drawImage: "\<exists>n\<le>1. cbs (snd (drawImage h w ee iv)) = cbs w @ replicate n []"
proof -
  have z: "\<exists>n\<le>1. cbs (registerVisibilityChange h w) = cbs w @ replicate n ([] :: callback option list)"
    by (rule exI[of _ 0]) simp
  show ?thesis
    using z cbs_schedule[of _ iv "registerVisibilityChange h w"]
    by (simp add: drawImage_def Let_def split: option.splits)
qed

lemma cbs_elapse [simp]: "cbs (elapse d w) = cbs w"
  by (simp add: elapse_def cbs_def)

lemma cost_Nil [simp]: "cost [] = 1"
  by (simp add: cost_def)

lemma extends_drawImage: "extends 1 (cbs w) (cbs (snd (drawImage h w ee iv)))"
proof -
  from cbs_drawImage[of h w ee iv] obtain n where n: "n \<le> 1" "cbs (snd (drawImage h w ee iv)) = cbs w @ replicate n []"
    by blast
  show ?thesis
  proof (cases "n = 0")
    case True
    with n(2) extends_mono[OF extends_refl, of 1 "cbs w"] show ?thesis by simp
  next
    case False
    with n(1) have "n = 1" by simp
    with n(2) extends_append[of "[]" "cbs w"] show ?thesis by simp
  qed
qed

lemma has_ensure [simp]: "has (ensure k m) k"
  by (auto simp: ensure_def has_def)

lemma extends_ensure:
  "extends 1 (map (\<lambda>(k, e). callbacks e) m) (map (\<lambda>(k, e). callbacks e) (ensure k m))"
proof (cases "has m k")
  case True
  with extends_mono[OF extends_refl, of 1] show ?thesis by (simp add: ensure_def)
next
  case False
  with extends_append[of "[]" "map (\<lambda>(k, e). callbacks e) m"] show ?thesis by (simp add: ensure_def)
qed

lemma extends_modify:
  assumes "has m k"
    and "\<And>cs. length cs \<le> length (g cs)"
    and "\<And>cs p. p \<le> length cs \<Longrightarrow>
        sum_list (map slot_weight (drop p (g cs))) \<le> sum_list (map slot_weight (drop p cs)) + n"
  shows "extends n (map (\<lambda>(k, e). callbacks e) m)
                   (map (\<lambda>(k, e). callbacks e) (modify k (\<lambda>e. e\<lparr>callbacks := g (callbacks e)\<rparr>) m))"
proof -
  let ?c = "\<lambda>(k, e). callbacks e"
  from modify_update[OF assms(1), of "\<lambda>e. e\<lparr>callbacks := g (callbacks e)\<rparr>"] obtain j where
    j: "j < length m" "modify k (\<lambda>e. e\<lparr>callbacks := g (callbacks e)\<rparr>) m
         = m[j := (k, (snd (m ! j))\<lparr>callbacks := g (callbacks (snd (m ! j)))\<rparr>)]"
    by blast
  have n: "map ?c m ! j = callbacks (snd (m ! j))" using j(1) by (simp add: case_prod_unfold)
  have "map ?c (modify k (\<lambda>e. e\<lparr>callbacks := g (callbacks e)\<rparr>) m) = (map ?c m)[j := g (map ?c m ! j)]"
    unfolding j(2) n by (simp add: map_update)
  moreover have "extends n (map ?c m) ((map ?c m)[j := g (map ?c m ! j)])"
    using j(1) assms(2,3) by (intro extends_update) simp_all
  ultimately show ?thesis by simp
qed

lemma length_set_add: "length cs \<le> length (set_add g cs)"
  by (simp add: set_add_def)

lemma length_set_delete: "length cs \<le> length (set_delete g cs)"
  by (simp add: set_delete_def)

lemma extends_addDrawCallback:
  "extends (Suc (Suc (weight g))) (cbs w) (cbs (addDrawCallback w el g))"
proof (cases "el = None")
  case True
  with extends_mono[OF extends_refl, of "Suc (Suc (weight g))" "cbs w"] show ?thesis
    by (simp add: addDrawCallback_def)
next
  case False
  let ?m = "ensure el (elementsDrawMap w)"
  have a: "extends 1 (cbs w) (map (\<lambda>(k, e). callbacks e) ?m)"
    unfolding cbs_def by (rule extends_ensure)
  have b: "extends (Suc (weight g)) (map (\<lambda>(k, e). callbacks e) ?m)
      (map (\<lambda>(k, e). callbacks e) (modify el (\<lambda>e. e\<lparr>callbacks := set_add g (callbacks e)\<rparr>) ?m))"
  proof (rule extends_modify)
    show "has ?m el" by simp
    show "length cs \<le> length (set_add g cs)" for cs by (rule length_set_add)
    show "p \<le> length cs \<Longrightarrow>
        sum_list (map slot_weight (drop p (set_add g cs))) \<le> sum_list (map slot_weight (drop p cs)) + Suc (weight g)"
      for cs p by (rule grow_set_add)
  qed
  from False obtain x where x: "el = Some x" by auto
  from extends_trans[OF a b] show ?thesis
    by (simp add: addDrawCallback_def Let_def cbs_def x)
qed

lemma get_None_iff: "get m k = None \<longleftrightarrow> \<not> has m k"
  by (simp add: get_def has_def map_of_eq_None_iff)

lemma extends_removeDrawCallback: "extends 0 (cbs w) (cbs (removeDrawCallback w el g))"
proof (cases "el = None \<or> get (elementsDrawMap w) el = None")
  case True
  then show ?thesis by (auto simp: removeDrawCallback_def extends_refl)
next
  case False
  then have h: "has (elementsDrawMap w) el" by (simp add: get_None_iff)
  have "extends 0 (map (\<lambda>(k, e). callbacks e) (elementsDrawMap w))
      (map (\<lambda>(k, e). callbacks e) (modify el (\<lambda>e. e\<lparr>callbacks := set_delete g (callbacks e)\<rparr>) (elementsDrawMap w)))"
  proof (rule extends_modify)
    show "has (elementsDrawMap w) el" by (rule h)
    show "length cs \<le> length (set_delete g cs)" for cs by (rule length_set_delete)
    show "sum_list (map slot_weight (drop p (set_delete g cs))) \<le> sum_list (map slot_weight (drop p cs)) + 0"
      for cs p by (rule grow_set_delete)
  qed
  moreover from False obtain x y where "el = Some x" "get (elementsDrawMap w) el = Some y" by auto
  ultimately show ?thesis by (simp add: removeDrawCallback_def cbs_def)
qed

lemma extends_run_body:
  "extends (sum_list (map weight_call cs)) (cbs w) (cbs (snd (run_body h f cs w)))"
proof (induction h f cs w rule: run_body.induct)
  case (1 h f w)
  show ?case by (simp add: extends_refl)
next
  case (2 h f d cs w)
  then show ?case by simp
next
  case (3 h f ee iv cs w)
  obtain err w' where d: "drawImage h w ee iv = (err, w')" by (cases "drawImage h w ee iv")
  from extends_drawImage[of w h ee iv] d have e: "extends 1 (cbs w) (cbs w')" by simp
  show ?case
  proof (cases err)
    case (Some x)
    with d extends_mono[OF e, of "Suc (sum_list (map weight_call cs))"] show ?thesis by simp
  next
    case None
    with 3 d have "extends (sum_list (map weight_call cs)) (cbs w') (cbs (snd (run_body h f cs w')))"
      by simp
    from extends_trans[OF e this] None d show ?thesis by simp
  qed
next
  case (4 h f el g cs w)
  from extends_trans[OF extends_addDrawCallback[of g w el] 4] show ?case by simp
next
  case (5 h f el g cs w)
  from extends_trans[OF extends_removeDrawCallback[of w el g] 5] show ?case by simp
next
  case (6 h f el cs w)
  from extends_trans[OF extends_removeDrawCallback[of w el f] 6] show ?case by simp
qed

lemma snd_rafcb: "snd (rafcb h r f w) = snd (run_body h f (body f) (w\<lparr>trace := trace w @ [Invoke f r]\<rparr>))"
  by (simp add: rafcb_def split: prod.splits option.splits)

lemma weight_body: "weight f = Suc (sum_list (map weight_call (body f)))"
  by (cases f) simp

lemma extends_rafcb: "extends (sum_list (map weight_call (body f))) (cbs w) (cbs (snd (rafcb h r f w)))"
proof -
  have "cbs (w\<lparr>trace := trace w @ [Invoke f r]\<rparr>) = cbs w" by (simp add: cbs_def)
  with extends_run_body[of "body f" "w\<lparr>trace := trace w @ [Invoke f r]\<rparr>" h f] show ?thesis
    by (simp add: snd_rafcb)
qed

lemma load_Suc:
  "p < length (css ! i) \<Longrightarrow> load i p css = load i (Suc p) css + slot_weight (css ! i ! p)"
  by (simp add: load_def flip: Cons_nth_drop_Suc)

lemma remaining_hole:
  assumes "i < length (elementsDrawMap w)" "p < length (callbacks (snd (elementsDrawMap w ! i)))"
  shows "remaining i (Suc p) w < remaining i p w"
proof -
  have "cbs w ! i = callbacks (snd (elementsDrawMap w ! i))"
    using assms(1) by (simp add: cbs_def case_prod_unfold)
  with assms(2) load_Suc[of p "cbs w" i] show ?thesis
    by (cases "cbs w ! i ! p") (simp_all add: remaining_def)
qed

lemma remaining_rafcb:
  assumes "i < length (elementsDrawMap w)" "p < length (callbacks (snd (elementsDrawMap w ! i)))"
    "callbacks (snd (elementsDrawMap w ! i)) ! p = Some f"
  shows "remaining i (Suc p) (snd (rafcb h r f w)) < remaining i p w"
    and "i < length (elementsDrawMap (snd (rafcb h r f w)))"
    and "Suc p \<le> length (callbacks (snd (elementsDrawMap (snd (rafcb h r f w)) ! i)))"
proof -
  let ?w = "snd (rafcb h r f w)"
  have c: "cbs w ! i = callbacks (snd (elementsDrawMap w ! i))" and l: "i < length (cbs w)"
    using assms(1) by (simp_all add: cbs_def case_prod_unfold)
  from extends_rafcb[of f w h r] l assms(2) c
  have e: "i < length (cbs ?w)" "Suc p \<le> length (cbs ?w ! i)"
    "load i (Suc p) (cbs ?w) \<le> load i (Suc p) (cbs w) + sum_list (map weight_call (body f))"
    unfolding extends_def by (metis Suc_leI)+
  from e(1) show i': "i < length (elementsDrawMap ?w)" by (simp add: cbs_def)
  then have "cbs ?w ! i = callbacks (snd (elementsDrawMap ?w ! i))"
    by (simp add: cbs_def case_prod_unfold)
  with e(2) show "Suc p \<le> length (callbacks (snd (elementsDrawMap ?w ! i)))" by simp
  from load_Suc[of p "cbs w" i] assms(2,3) c
  have "load i p (cbs w) = load i (Suc p) (cbs w) + Suc (weight f)" by simp
  with e(3) show "remaining i (Suc p) ?w < remaining i p w"
    by (simp add: remaining_def weight_body[of f])
qed

text \<open>
  \<open>entry.callbacks.forEach\<close> with its \<open>try\<close>/\<open>catch\<close> around each call, from position \<open>p\<close>
  of the set on: what a callback throws is dropped and the loop goes on with the world the
  callback left. \<open>entry\<close> is the object in position \<open>i\<close> of the map (entries are never
  removed or replaced), and its set is read again at every step, so a member that a
  callback has removed before its turn is not called and a member that a callback has added
  is.
\<close>

function forEach_callbacks :: "host \<Rightarrow> nat \<Rightarrow> ref \<Rightarrow> nat \<Rightarrow> world \<Rightarrow> world" where
  "forEach_callbacks h i r p w =
     (if i < length (elementsDrawMap w) \<and> p < length (callbacks (snd (elementsDrawMap w ! i)))
      then (case callbacks (snd (elementsDrawMap w ! i)) ! p of
              None \<Rightarrow> forEach_callbacks h i r (Suc p) w
            | Some f \<Rightarrow> forEach_callbacks h i r (Suc p) (snd (rafcb h r f w)))
      else w)"
  by pat_completeness auto
termination
proof (relation "measure (\<lambda>(h, i, r, p, w). remaining i p w)")
  show "wf (measure (\<lambda>(h, i, r, p, w). remaining i p w))" by simp
next
  fix h i r p and w :: world
  assume "i < length (elementsDrawMap w) \<and> p < length (callbacks (snd (elementsDrawMap w ! i)))"
    "callbacks (snd (elementsDrawMap w ! i)) ! p = None"
  then show "((h, i, r, Suc p, w), (h, i, r, p, w)) \<in> measure (\<lambda>(h, i, r, p, w). remaining i p w)"
    using remaining_hole[of i w p] by simp
next
  fix h i r p f and w :: world
  assume "i < length (elementsDrawMap w) \<and> p < length (callbacks (snd (elementsDrawMap w ! i)))"
    "callbacks (snd (elementsDrawMap w ! i)) ! p = Some f"
  then show "((h, i, r, Suc p, snd (rafcb h r f w)), (h, i, r, p, w)) \<in> measure (\<lambda>(h, i, r, p, w). remaining i p w)"
    using remaining_rafcb(1)[of i w p f h r] by simp
qed

declare forEach_callbacks.simps [simp del]

text \<open>
  The body of the arrow function \<open>step\<close> passes to \<open>elementsDrawMap.forEach\<close>, at the entry
  in position \<open>i\<close>. \<open>getEnabledElement\<close> is not among the sources: it is the lookup
  \<open>enabled\<close>, which throws where it is \<open>None\<close>.
\<close>

definition visit :: "host \<Rightarrow> nat \<Rightarrow> world \<Rightarrow> exn option \<times> world" where
  "visit h i w =
     (let (k, e) = elementsDrawMap w ! i
      in case k of
           None \<Rightarrow> (None, w)
         | Some el \<Rightarrow>
             if \<not> needsRedraw e then (None, w)
             else (case enabled w el of
                     None \<Rightarrow> (None, w)
                   | Some r \<Rightarrow>
                       (let w1 = w\<lparr>trace := trace w @ [PreRender el r (dateNow w)]\<rparr>;
                            flag = invalid (objects w1 r);
                            w2 = w1\<lparr>trace := trace w1 @ [Render r flag]\<rparr>
                        in case drawImageSync h (objects w2 r) flag of
                             None \<Rightarrow> (Some RenderError, w2)
                           | Some (ob, d) \<Rightarrow>
                               (let w3 = elapse d (w2\<lparr>objects := (objects w2)(r := ob)\<rparr>);
                                    w4 = w3\<lparr>elementsDrawMap :=
                                              (elementsDrawMap w3)[i := (k, e\<lparr>needsRedraw := False\<rparr>)]\<rparr>
                                in if set_size (callbacks e) > 0
                                   then (let w5 = forEach_callbacks h i r 0 w4
                                         in (None, w5\<lparr>rafStopTime := Some (perfNow w5 + rafStopMaxTime)\<rparr>))
                                   else (None, w4)))))"

text \<open>
  The loop over the map ends: a visit leaves less to do after position \<open>i\<close> than there
  was from position \<open>i\<close> on.
\<close>

lemma forEach_callbacks_induct [consumes 0, case_names step]:
  assumes "\<And>p w.
      (i < length (elementsDrawMap w) \<Longrightarrow> p < length (callbacks (snd (elementsDrawMap w ! i))) \<Longrightarrow>
         callbacks (snd (elementsDrawMap w ! i)) ! p = None \<Longrightarrow> P (Suc p) w) \<Longrightarrow>
      (\<And>f. i < length (elementsDrawMap w) \<Longrightarrow> p < length (callbacks (snd (elementsDrawMap w ! i))) \<Longrightarrow>
         callbacks (snd (elementsDrawMap w ! i)) ! p = Some f \<Longrightarrow> P (Suc p) (snd (rafcb h r f w))) \<Longrightarrow>
      P p w"
  shows "P p w"
proof -
  have "h' = h \<longrightarrow> i' = i \<longrightarrow> r' = r \<longrightarrow> P p w" for h' i' r'
  proof (induction h' i' r' p w rule: forEach_callbacks.induct)
    case (1 h' i' r' p w)
    show ?case
    proof (intro impI)
      assume e: "h' = h" "i' = i" "r' = r"
      show "P p w"
      proof (rule assms)
        assume "i < length (elementsDrawMap w)" "p < length (callbacks (snd (elementsDrawMap w ! i)))"
          "callbacks (snd (elementsDrawMap w ! i)) ! p = None"
        with 1(1) e show "P (Suc p) w" by simp
      next
        fix f
        assume "i < length (elementsDrawMap w)" "p < length (callbacks (snd (elementsDrawMap w ! i)))"
          "callbacks (snd (elementsDrawMap w ! i)) ! p = Some f"
        with 1(2) e show "P (Suc p) (snd (rafcb h r f w))" by simp
      qed
    qed
  qed
  then show ?thesis by simp
qed

lemma forEach_callbacks_end:
  "\<not> (i < length (elementsDrawMap w) \<and> p < length (callbacks (snd (elementsDrawMap w ! i)))) \<Longrightarrow>
   forEach_callbacks h i r p w = w"
  by (subst forEach_callbacks.simps) auto

lemma forEach_callbacks_hole:
  "i < length (elementsDrawMap w) \<Longrightarrow> p < length (callbacks (snd (elementsDrawMap w ! i))) \<Longrightarrow>
   callbacks (snd (elementsDrawMap w ! i)) ! p = None \<Longrightarrow>
   forEach_callbacks h i r p w = forEach_callbacks h i r (Suc p) w"
  by (subst forEach_callbacks.simps) simp

lemma forEach_callbacks_call:
  "i < length (elementsDrawMap w) \<Longrightarrow> p < length (callbacks (snd (elementsDrawMap w ! i))) \<Longrightarrow>
   callbacks (snd (elementsDrawMap w ! i)) ! p = Some f \<Longrightarrow>
   forEach_callbacks h i r p w = forEach_callbacks h i r (Suc p) (snd (rafcb h r f w))"
  by (subst forEach_callbacks.simps) simp

lemma potential_forEach_callbacks:
  "i < length (elementsDrawMap w) \<and> p \<le> length (callbacks (snd (elementsDrawMap w ! i))) \<longrightarrow>
   potential (Suc i) (forEach_callbacks h i r p w) \<le> remaining i p w"
proof (induction p w rule: forEach_callbacks_induct[where h=h and i=i and r=r])
  case (step p w)
  show ?case
  proof (intro impI)
    assume a: "i < length (elementsDrawMap w) \<and> p \<le> length (callbacks (snd (elementsDrawMap w ! i)))"
    show "potential (Suc i) (forEach_callbacks h i r p w) \<le> remaining i p w"
    proof (cases "p < length (callbacks (snd (elementsDrawMap w ! i)))")
      case False
      with a show ?thesis
        by (simp add: forEach_callbacks_end remaining_def load_def potential_cbs)
    next
      case True
      show ?thesis
      proof (cases "callbacks (snd (elementsDrawMap w ! i)) ! p")
        case None
        with step(1) a True remaining_hole[of i w p] show ?thesis
          by (simp add: forEach_callbacks_hole)
      next
        case (Some f)
        note r = remaining_rafcb[OF conjunct1[OF a] True Some, of h r]
        from step(2)[OF conjunct1[OF a] True Some] r show ?thesis
          using a True Some by (simp add: forEach_callbacks_call)
      qed
    qed
  qed
qed

lemma cbs_update_needsRedraw:
  assumes "i < length m" "m ! i = (k, e)"
  shows "map (\<lambda>(k, e). callbacks e) (m[i := (k, e\<lparr>needsRedraw := b\<rparr>)]) = map (\<lambda>(k, e). callbacks e) m"
proof -
  have "map (\<lambda>(k, e). callbacks e) (m[i := (k, e\<lparr>needsRedraw := b\<rparr>)])
        = (map (\<lambda>(k, e). callbacks e) m)[i := callbacks e]"
    by (simp add: map_update)
  also have "\<dots> = map (\<lambda>(k, e). callbacks e) m"
    using assms by (intro list_update_same_conv[THEN iffD2]) auto
  finally show ?thesis .
qed

lemma potential_visit:
  assumes "i < length (elementsDrawMap w)"
  shows "potential (Suc i) (snd (visit h i w)) < potential i w"
proof -
  obtain k e where ke: "elementsDrawMap w ! i = (k, e)" by (cases "elementsDrawMap w ! i")
  have len: "i < length (cbs w)" using assms by (simp add: cbs_def)
  have ci: "cbs w ! i = callbacks e" using assms ke by (simp add: cbs_def)
  have split: "potential i w = cost (callbacks e) + potential (Suc i) w"
    using len ci by (simp add: potential_cbs flip: Cons_nth_drop_Suc)
  show ?thesis
  proof (cases "\<exists>el r ob d. k = Some el \<and> needsRedraw e \<and> enabled w el = Some r \<and>
       drawImageSync h (objects w r) (invalid (objects w r)) = Some (ob, d)")
    case False
    then have "cbs (snd (visit h i w)) = cbs w"
      by (auto simp: visit_def ke Let_def cbs_def split: option.splits)
    then have "potential (Suc i) (snd (visit h i w)) = potential (Suc i) w"
      by (simp add: potential_cbs)
    with split show ?thesis by (simp add: cost_def)
  next
    case True
    then obtain el r ob d where t: "k = Some el" "needsRedraw e" "enabled w el = Some r"
      "drawImageSync h (objects w r) (invalid (objects w r)) = Some (ob, d)" by blast
    define w4 where "w4 = (elapse d (w\<lparr>trace := trace w @ [PreRender el r (dateNow w), Render r (invalid (objects w r))],
         objects := (objects w)(r := ob)\<rparr>))\<lparr>elementsDrawMap := (elementsDrawMap w)[i := (k, e\<lparr>needsRedraw := False\<rparr>)]\<rparr>"
    have c4: "cbs w4 = cbs w"
      using cbs_update_needsRedraw[OF assms ke] by (simp add: w4_def cbs_def elapse_def)
    have v: "snd (visit h i w) = (if set_size (callbacks e) > 0
         then (forEach_callbacks h i r 0 w4)\<lparr>rafStopTime := Some (perfNow (forEach_callbacks h i r 0 w4) + rafStopMaxTime)\<rparr>
         else w4)"
      using t by (simp add: visit_def ke Let_def w4_def elapse_def)
    have p4: "potential (Suc i) w4 = potential (Suc i) w" by (simp add: potential_cbs c4)
    show ?thesis
    proof (cases "set_size (callbacks e) > 0")
      case False
      with v p4 split show ?thesis by (simp add: cost_def)
    next
      case True
      have i4: "i < length (elementsDrawMap w4)" using assms by (simp add: w4_def elapse_def)
      from potential_forEach_callbacks[of i w4 0 h r] i4
      have "potential (Suc i) (forEach_callbacks h i r 0 w4) \<le> remaining i 0 w4" by simp
      also have "remaining i 0 w4 = potential (Suc i) w + sum_list (map slot_weight (callbacks e))"
        by (simp add: remaining_def load_def c4 ci potential_cbs)
      finally have "potential (Suc i) (forEach_callbacks h i r 0 w4) < potential i w"
        using split by (simp add: cost_def)
      moreover have "potential (Suc i) ((forEach_callbacks h i r 0 w4)\<lparr>rafStopTime := x\<rparr>)
          = potential (Suc i) (forEach_callbacks h i r 0 w4)" for x
        by (simp add: potential_def)
      ultimately show ?thesis using True v by simp
    qed
  qed
qed

text \<open>
  \<open>Map.prototype.forEach\<close> from position \<open>i\<close> on: it goes on while there is an entry at
  the position, also one that a callback has just added, and an exception thrown by the
  function ends it.
\<close>

function drain :: "host \<Rightarrow> nat \<Rightarrow> world \<Rightarrow> exn option \<times> world" where
  "drain h i w =
     (if i < length (elementsDrawMap w)
      then (case visit h i w of
              (Some err, w') \<Rightarrow> (Some err, w')
            | (None, w') \<Rightarrow> drain h (Suc i) w')
      else (None, w))"
  by pat_completeness auto
termination
proof (relation "measure (\<lambda>(h, i, w). potential i w)")
  show "wf (measure (\<lambda>(h, i, w). potential i w))" by simp
next
  fix h i w x1 w'
  assume "i < length (elementsDrawMap w)" "(x1, w') = visit h i w"
  then show "((h, Suc i, w'), (h, i, w)) \<in> measure (\<lambda>(h, i, w). potential i w)"
    using potential_visit[of i w h] by (simp add: prod_eq_iff)
qed

declare drain.simps [simp del]

definition step :: "host \<Rightarrow> world \<Rightarrow> exn option \<times> world" where
  "step h w =
     (case drain h 0 w of
        (Some err, w') \<Rightarrow> (Some err, w')
      | (None, w') \<Rightarrow>
          if truthy (rafStopTime w') \<and> perfNow w' < the (rafStopTime w')
          then (let (fr, w2) = requestAnimationFrame w' in (None, w2\<lparr>rafId := Some fr\<rparr>))
          else (None, stopRaf w'))"

text \<open>
  The host runs the oldest pending animation frame request: the request leaves the queue
  and \<open>step\<close> is called. \<open>None\<close> when nothing is pending.
\<close>

definition fire :: "host \<Rightarrow> world \<Rightarrow> (exn option \<times> world) option" where
  "fire h w = (case frames w of [] \<Rightarrow> None | f # fs \<Rightarrow> Some (step h (w\<lparr>frames := fs\<rparr>)))"

section \<open>Observations and invariants\<close>

text \<open>
  What JavaScript guarantees of a \<open>Map\<close> and of a \<open>Set\<close>: a key occurs once, a member
  occurs once.
\<close>

definition well_formed :: "world \<Rightarrow> bool" where
  "well_formed w =
     (distinct (map fst (elementsDrawMap w)) \<and>
      list_all (\<lambda>(k, e). distinct (members (callbacks e))) (elementsDrawMap w))"

text \<open>The events between two worlds, and the calls of each kind among some events.\<close>

definition since :: "world \<Rightarrow> world \<Rightarrow> event list" where
  "since w w' = drop (length (trace w)) (trace w')"

fun invocations :: "event list \<Rightarrow> (callback \<times> ref) list" where
  "invocations [] = []"
| "invocations (Invoke f r # es) = (f, r) # invocations es"
| "invocations (e # es) = invocations es"

fun renders :: "event list \<Rightarrow> (ref \<times> bool) list" where
  "renders [] = []"
| "renders (Render r b # es) = (r, b) # renders es"
| "renders (e # es) = renders es"

fun requests :: "event list \<Rightarrow> handle list" where
  "requests [] = []"
| "requests (Raf h # es) = h # requests es"
| "requests (e # es) = requests es"

text \<open>
  Between two worlds nothing was scheduled: \<open>rafId\<close> and the pending frames are the same
  and the events in between hold no call of \<open>requestAnimationFrame\<close>.
\<close>

definition quiet :: "world \<Rightarrow> world \<Rightarrow> bool" where
  "quiet w w' = (rafId w' = rafId w \<and> frames w' = frames w \<and>
                 (\<exists>es. trace w' = trace w @ es \<and> requests es = []))"


text \<open>
  \<open>idle\<close>: no entry is dirty. \<open>dormant\<close>: no handle is recorded and no frame is pending.
  \<open>ahead\<close>: the idle deadline is set and still in the future.
\<close>

definition idle :: "world \<Rightarrow> bool" where
  "idle w = list_all (\<lambda>(k, e). \<not> needsRedraw e) (elementsDrawMap w)"

definition dormant :: "world \<Rightarrow> bool" where
  "dormant w = (rafId w = None \<and> frames w = [])"

definition ahead :: "world \<Rightarrow> bool" where
  "ahead w = (case rafStopTime w of None \<Rightarrow> False | Some t \<Rightarrow> perfNow w < t)"

text \<open>The guard of \<open>drawImage\<close> lets the enabled element through.\<close>

definition passes :: "enabled_element \<Rightarrow> bool" where
  "passes ob =
     (canvas ob \<noteq> None \<and>
      (imageOf ob \<noteq> None \<or> (case layers ob of None \<Rightarrow> False | Some ls \<Rightarrow> \<not> length ls < 1)))"

text \<open>A sequence of calls \<open>drawImage(ee, iv)\<close> on one enabled element, one call for each flag.\<close>

fun window :: "host \<Rightarrow> world \<Rightarrow> ref \<Rightarrow> bool list \<Rightarrow> world" where
  "window h w r [] = w"
| "window h w r (iv # ivs) = window h (snd (drawImage h w (Some r) iv)) r ivs"

text \<open>The flags of the calls of \<open>drawImageSync\<close> for one enabled element among some events.\<close>

definition renders_of :: "ref \<Rightarrow> event list \<Rightarrow> bool list" where
  "renders_of r es = map snd (filter (\<lambda>p. fst p = r) (renders es))"

text \<open>\<open>getEnabledElement\<close> returns \<open>r\<close> for the element \<open>el\<close> and for no other element.\<close>

definition resolves_only :: "world \<Rightarrow> element \<Rightarrow> ref \<Rightarrow> bool" where
  "resolves_only w el r = (enabled w el = Some r \<and> (\<forall>el'. el' \<noteq> el \<longrightarrow> enabled w el' \<noteq> Some r))"

text \<open>
  The keys of the map are distinct, position \<open>j\<close> holds the entry of \<open>el\<close>, and \<open>el\<close> alone
  resolves to \<open>r\<close>. \<open>dirty_at\<close>: the entry in position \<open>j\<close> is dirty.
\<close>

definition slot :: "nat \<Rightarrow> element \<Rightarrow> ref \<Rightarrow> world \<Rightarrow> bool" where
  "slot j el r w =
     (distinct (map fst (elementsDrawMap w)) \<and> j < length (elementsDrawMap w) \<and>
      fst (elementsDrawMap w ! j) = Some el \<and> enabled w el = Some r \<and>
      (\<forall>el'. el' \<noteq> el \<longrightarrow> enabled w el' \<noteq> Some r))"

definition dirty_at :: "nat \<Rightarrow> world \<Rightarrow> bool" where
  "dirty_at j w = (j < length (elementsDrawMap w) \<and> needsRedraw (snd (elementsDrawMap w ! j)))"

text \<open>
  A callback obeys a rule on calls when every call of its script does and every callback that
  its script adds obeys the rule too. \<open>scripted A\<close>: every callback registered in the map
  obeys \<open>A\<close>.
\<close>

fun obeys :: "(call \<Rightarrow> bool) \<Rightarrow> callback \<Rightarrow> bool"
  and obeys_call :: "(call \<Rightarrow> bool) \<Rightarrow> call \<Rightarrow> bool" where
  "obeys A (Callback n cs t) = list_all (obeys_call A) cs"
| "obeys_call A (AddDrawCallback el g) = (A (AddDrawCallback el g) \<and> obeys A g)"
| "obeys_call A (DrawImage ee iv) = A (DrawImage ee iv)"
| "obeys_call A (Elapse d) = A (Elapse d)"
| "obeys_call A (RemoveDrawCallback el g) = A (RemoveDrawCallback el g)"
| "obeys_call A (RemoveSelf el) = A (RemoveSelf el)"

definition scripted :: "(call \<Rightarrow> bool) \<Rightarrow> world \<Rightarrow> bool" where
  "scripted A w = (\<forall>cs\<in>set (cbs w). \<forall>f\<in>set (members cs). obeys A f)"

text \<open>
  No callback registered in the map, and no callback that one of them registers, calls
  \<open>drawImage(r, true)\<close>; the renderer never throws.
\<close>

definition tame :: "ref \<Rightarrow> world \<Rightarrow> bool" where
  "tame r w = scripted (\<lambda>c. c \<noteq> DrawImage (Some r) True) w"



definition sound :: "host \<Rightarrow> bool" where
  "sound h = (\<forall>ob f. drawImageSync h ob f \<noteq> None)"

text \<open>The keys of the map, each with the flag of its entry.\<close>

definition flags :: "world \<Rightarrow> (element option \<times> bool) list" where
  "flags w = map (\<lambda>(k, e). (k, needsRedraw e)) (elementsDrawMap w)"


text \<open>
  Relations between the world before and after some steps of a tick, for the surface in
  position \<open>j\<close>: \<open>kept\<close>, the slot is still there and no new render of \<open>r\<close> has been
  recorded; \<open>held\<close>, moreover the entry is still dirty and the enabled element is as it
  was; \<open>stays\<close>, the slot is still there; \<open>grows\<close>, the trace has only been extended.
\<close>

definition kept :: "nat \<Rightarrow> element \<Rightarrow> ref \<Rightarrow> world \<Rightarrow> world \<Rightarrow> bool" where
  "kept j el r w w' =
     (slot j el r w \<longrightarrow> slot j el r w' \<and> renders_of r (trace w') = renders_of r (trace w))"

definition held :: "nat \<Rightarrow> element \<Rightarrow> ref \<Rightarrow> world \<Rightarrow> world \<Rightarrow> bool" where
  "held j el r w w' =
     (slot j el r w \<and> dirty_at j w \<longrightarrow>
      slot j el r w' \<and> dirty_at j w' \<and> renders_of r (trace w') = renders_of r (trace w) \<and>
      objects w' r = objects w r)"

definition stays :: "nat \<Rightarrow> element \<Rightarrow> ref \<Rightarrow> world \<Rightarrow> world \<Rightarrow> bool" where
  "stays j el r w w' = (slot j el r w \<longrightarrow> slot j el r w')"

definition grows :: "world \<Rightarrow> world \<Rightarrow> bool" where
  "grows w w' = (\<exists>es. trace w' = trace w @ es)"

text \<open>
  \<open>fresh t0\<close>: the idle deadline has been set at or after time \<open>t0\<close>. \<open>marks t0\<close>: from one
  world to the next the clock has not gone back behind \<open>t0\<close>, a fresh deadline has stayed
  fresh, and every entry that has become dirty has come with a fresh deadline.
\<close>

definition fresh :: "nat \<Rightarrow> world \<Rightarrow> bool" where
  "fresh t0 w = (case rafStopTime w of None \<Rightarrow> False | Some t \<Rightarrow> t0 + rafStopMaxTime \<le> t)"

definition marks :: "nat \<Rightarrow> world \<Rightarrow> world \<Rightarrow> bool" where
  "marks t0 w w' =
     (t0 \<le> perfNow w \<longrightarrow>
      t0 \<le> perfNow w' \<and> (fresh t0 w \<longrightarrow> fresh t0 w') \<and>
      (\<forall>j. dirty_at j w' \<longrightarrow> dirty_at j w \<or> fresh t0 w'))"

text \<open>
  \<open>known\<close>: the key is an element that resolves. \<open>all_enabled\<close>: every enabled element
  object belongs to an element that resolves. \<open>faithful\<close>: the renderer does not change
  the \<open>element\<close> of the enabled element it draws. \<open>resolving\<close>: every dirty entry belongs
  to an element that resolves. \<open>sane\<close>: the last two are kept from one world to the next.
\<close>

definition known :: "world \<Rightarrow> element option \<Rightarrow> bool" where
  "known w k = (case k of None \<Rightarrow> False | Some el \<Rightarrow> enabled w el \<noteq> None)"

definition all_enabled :: "world \<Rightarrow> bool" where
  "all_enabled w = (\<forall>r. known w (element (objects w r)))"

definition faithful :: "host \<Rightarrow> bool" where
  "faithful h = (\<forall>ob f ob' d. drawImageSync h ob f = Some (ob', d) \<longrightarrow> element ob' = element ob)"

definition resolving :: "world \<Rightarrow> bool" where
  "resolving w =
     list_all (\<lambda>(k, e). needsRedraw e \<longrightarrow> known w k) (elementsDrawMap w)"

definition sane :: "world \<Rightarrow> world \<Rightarrow> bool" where
  "sane w w' = (all_enabled w \<and> resolving w \<longrightarrow> all_enabled w' \<and> resolving w')"

text \<open>
  What can happen to the module, one action at a time: a call of \<open>drawImage\<close>, of
  \<open>addDrawCallback\<close> or of \<open>removeDrawCallback\<close>, time passing, the page becoming visible
  (the listener runs with \<open>document[hidden]\<close> false), and the host running the pending
  animation frame. \<open>act\<close> is \<open>None\<close> where the action is not possible (no listener, no
  pending frame) and for a frame whose \<open>step\<close> throws or takes \<open>rafStopMaxTime\<close> or longer.
  The page becoming hidden is not among the actions.
\<close>

datatype action =
    Draw "ref option" bool
  | Register "element option" callback
  | Unregister "element option" callback
  | Pass nat
  | Shown
  | Frame

fun act :: "host \<Rightarrow> action \<Rightarrow> world \<Rightarrow> world option" where
  "act h (Draw ee iv) w = Some (snd (drawImage h w ee iv))"
| "act h (Register el f) w = Some (addDrawCallback w el f)"
| "act h (Unregister el f) w = Some (removeDrawCallback w el f)"
| "act h (Pass d) w = Some (elapse d w)"
| "act h Shown w = (if listeners w = [] then None else Some (onVisibilityChange False w))"
| "act h Frame w =
     (case fire h w of
        Some (None, w') \<Rightarrow> if perfNow w' < perfNow w + rafStopMaxTime then Some w' else None
      | _ \<Rightarrow> None)"

fun run :: "host \<Rightarrow> action list \<Rightarrow> world \<Rightarrow> world option" where
  "run h [] w = Some w"
| "run h (a # as) w = (case act h a w of None \<Rightarrow> None | Some w' \<Rightarrow> run h as w')"

text \<open>
  \<open>consistent\<close>: \<open>rafId\<close> is \<open>null\<close> and no frame is pending, or it is the handle of the one
  pending frame. \<open>healthy\<close> collects what every action keeps.
\<close>

definition consistent :: "world \<Rightarrow> bool" where
  "consistent w = (case rafId w of None \<Rightarrow> frames w = [] | Some x \<Rightarrow> x \<noteq> 0 \<and> frames w = [x])"

definition healthy :: "world \<Rightarrow> bool" where
  "healthy w = (consistent w \<and> all_enabled w \<and> resolving w \<and> (idle w \<or> rafId w \<noteq> None))"

text \<open>
  The world after the entry in position \<open>i\<close> has been rendered and its flag cleared, before
  its callbacks run.
\<close>

definition after_render :: "nat \<Rightarrow> element \<Rightarrow> entry \<Rightarrow> ref \<Rightarrow> enabled_element \<Rightarrow> nat \<Rightarrow> world \<Rightarrow> world" where
  "after_render i el e r ob d w =
     (elapse d (w\<lparr>trace := trace w @ [PreRender el r (dateNow w), Render r (invalid (objects w r))],
                  objects := (objects w)(r := ob)\<rparr>))
       \<lparr>elementsDrawMap := (elementsDrawMap w)[i := (Some el, e\<lparr>needsRedraw := False\<rparr>)]\<rparr>"

subsection \<open>Facts about the map and the sets\<close>

lemma map_fst_modify [simp]: "map fst (modify k f m) = map fst m"
  by (induction m) auto

lemma has_modify [simp]: "has (modify k f m) k' = has m k'"
proof -
  have "set (map fst (modify k f m)) = set (map fst m)" by simp
  then show ?thesis unfolding has_def set_map by simp
qed



lemma set_add_idem [simp]: "set_add f (set_add f cs) = set_add f cs"
  by (simp add: set_add_def)






lemma length_modify [simp]: "length (modify k f m) = length m"
  by (induction m) auto

lemma nth_modify_cases:
  "i < length m \<Longrightarrow>
   modify k f m ! i = m ! i \<or> (fst (m ! i) = k \<and> modify k f m ! i = (k, f (snd (m ! i))))"
proof (induction m arbitrary: i)
  case Nil
  then show ?case by simp
next
  case (Cons x m)
  obtain k' e where x: "x = (k', e)" by (cases x)
  show ?case
  proof (cases i)
    case 0
    with x show ?thesis by simp
  next
    case (Suc j)
    with Cons x show ?thesis by simp
  qed
qed

lemma fst_nth_modify: "i < length m \<Longrightarrow> fst (modify k f m ! i) = fst (m ! i)"
  using nth_modify_cases[of i m k f] by auto


lemma nth_modify_distinct:
  assumes "distinct (map fst m)" "i < length m" "fst (m ! i) = k"
  shows "modify k f m ! i = (k, f (snd (m ! i)))"
proof -
  have "has m k" using assms(2,3) by (auto simp: has_def intro!: image_eqI[where x="m ! i"])
  from modify_update[OF this, of f] obtain j where
    j: "j < length m" "fst (m ! j) = k" "modify k f m = m[j := (k, f (snd (m ! j)))]" by blast
  have e: "map fst m ! i = map fst m ! j" using assms(2,3) j(1,2) by simp
  have "i < length (map fst m)" "j < length (map fst m)" using assms(2) j(1) by simp_all
  from nth_eq_iff_index_eq[OF assms(1) this] e have "i = j" by blast
  with j show ?thesis by simp
qed

lemma members_iff: "g \<in> set (members cs) \<longleftrightarrow> Some g \<in> set cs"
  by (induction cs rule: members.induct) auto

lemma members_append [simp]: "members (a @ b) = members a @ members b"
  by (induction a rule: members.induct) auto

subsection \<open>What each function leaves alone\<close>

lemma nth_ensure: "i < length m \<Longrightarrow> ensure k m ! i = m ! i"
  by (simp add: ensure_def nth_append)

lemma length_ensure: "length m \<le> length (ensure k m)"
  by (simp add: ensure_def)

lemma elementsDrawMap_registerVisibilityChange [simp]:
  "elementsDrawMap (registerVisibilityChange h w) = elementsDrawMap w"
  by (simp add: registerVisibilityChange_def Let_def split: option.splits)

lemma enabled_registerVisibilityChange [simp]: "enabled (registerVisibilityChange h w) = enabled w"
  by (simp add: registerVisibilityChange_def Let_def split: option.splits)

lemma enabled_schedule [simp]: "enabled (schedule r iv w) = enabled w"
  by (simp add: schedule_def Let_def requestAnimationFrame_def)

lemma elementsDrawMap_schedule:
  "elementsDrawMap (schedule r iv w) =
     modify (element (objects w r)) (\<lambda>e. e\<lparr>needsRedraw := True\<rparr>) (ensure (element (objects w r)) (elementsDrawMap w))"
  by (simp add: schedule_def Let_def requestAnimationFrame_def)

lemma drawImage_cases:
  "snd (drawImage h w ee iv) = registerVisibilityChange h w \<or>
   (\<exists>r. snd (drawImage h w ee iv) = schedule r iv (registerVisibilityChange h w))"
  by (auto simp: drawImage_def Let_def split: option.splits)

lemma addDrawCallback_fields [simp]:
  "rafId (addDrawCallback w el g) = rafId w" "rafStopTime (addDrawCallback w el g) = rafStopTime w"
  "perfNow (addDrawCallback w el g) = perfNow w" "dateNow (addDrawCallback w el g) = dateNow w"
  "objects (addDrawCallback w el g) = objects w" "enabled (addDrawCallback w el g) = enabled w"
  "frames (addDrawCallback w el g) = frames w" "lastHandle (addDrawCallback w el g) = lastHandle w"
  "listeners (addDrawCallback w el g) = listeners w" "registered (addDrawCallback w el g) = registered w"
  by (simp_all add: addDrawCallback_def Let_def)

lemma removeDrawCallback_fields [simp]:
  "rafId (removeDrawCallback w el g) = rafId w" "rafStopTime (removeDrawCallback w el g) = rafStopTime w"
  "perfNow (removeDrawCallback w el g) = perfNow w" "dateNow (removeDrawCallback w el g) = dateNow w"
  "objects (removeDrawCallback w el g) = objects w" "enabled (removeDrawCallback w el g) = enabled w"
  "frames (removeDrawCallback w el g) = frames w" "lastHandle (removeDrawCallback w el g) = lastHandle w"
  "listeners (removeDrawCallback w el g) = listeners w" "registered (removeDrawCallback w el g) = registered w"
  by (simp_all add: removeDrawCallback_def split: option.splits)

lemma flags_modify_callbacks:
  "map (\<lambda>(k, e). (k, needsRedraw e)) (modify k' (\<lambda>e. e\<lparr>callbacks := g (callbacks e)\<rparr>) m)
   = map (\<lambda>(k, e). (k, needsRedraw e)) m"
  by (induction m) auto

lemma flags_addDrawCallback:
  "flags (addDrawCallback w el g) =
     (if el = None \<or> has (elementsDrawMap w) el then flags w else flags w @ [(el, False)])"
  by (auto simp: flags_def addDrawCallback_def Let_def flags_modify_callbacks ensure_def)

lemma flags_removeDrawCallback: "flags (removeDrawCallback w el g) = flags w"
  by (auto simp: flags_def removeDrawCallback_def flags_modify_callbacks split: option.splits)

lemma length_flags [simp]: "length (flags w) = length (elementsDrawMap w)"
  by (simp add: flags_def)

lemma nth_flags:
  "i < length (elementsDrawMap w) \<Longrightarrow>
   flags w ! i = (fst (elementsDrawMap w ! i), needsRedraw (snd (elementsDrawMap w ! i)))"
  by (simp add: flags_def case_prod_unfold)

lemma keys_flags: "map fst (flags w) = map fst (elementsDrawMap w)"
  by (simp add: flags_def case_prod_unfold comp_def)

lemma list_all_modify_callbacks:
  assumes "list_all (\<lambda>(k, e). P k (needsRedraw e)) m"
  shows "list_all (\<lambda>(k, e). P k (needsRedraw e)) (modify k' (\<lambda>e. e\<lparr>callbacks := g (callbacks e)\<rparr>) m)"
  using assms by (induction m) auto

lemma dirty_at_flags: "dirty_at j w = (j < length (flags w) \<and> snd (flags w ! j))"
  by (auto simp: dirty_at_def nth_flags)

lemma dirty_at_addDrawCallback [simp]: "dirty_at j (addDrawCallback w el g) = dirty_at j w"
  by (auto simp: dirty_at_flags flags_addDrawCallback nth_append)

lemma dirty_at_removeDrawCallback [simp]: "dirty_at j (removeDrawCallback w el g) = dirty_at j w"
  by (simp add: dirty_at_flags flags_removeDrawCallback)




lemma slot_flags:
  "slot j el r w = (distinct (map fst (flags w)) \<and> j < length (flags w) \<and>
      fst (flags w ! j) = Some el \<and> enabled w el = Some r \<and>
      (\<forall>el'. el' \<noteq> el \<longrightarrow> enabled w el' \<noteq> Some r))"
  unfolding slot_def keys_flags by (auto simp: nth_flags)

lemma keys_has: "has (elementsDrawMap w) k = (k \<in> set (map fst (flags w)))"
  by (simp add: has_def keys_flags)

lemma slot_addDrawCallback: "slot j el r w \<Longrightarrow> slot j el r (addDrawCallback w k g)"
  unfolding slot_flags flags_addDrawCallback keys_has
  by (cases "k = None \<or> k \<in> set (map fst (flags w))") (simp_all add: nth_append)

lemma slot_removeDrawCallback: "slot j el r w \<Longrightarrow> slot j el r (removeDrawCallback w k g)"
  by (simp add: slot_flags flags_removeDrawCallback)

lemma idle_flags: "idle w = list_all (\<lambda>(k, b). \<not> b) (flags w)"
  by (simp add: idle_def flags_def list_all_iff case_prod_unfold)

lemma resolving_flags: "resolving w = list_all (\<lambda>(k, b). b \<longrightarrow> known w k) (flags w)"
  by (simp add: resolving_def flags_def list_all_iff case_prod_unfold)

subsection \<open>The trace of each function\<close>

lemma invocations_append [simp]: "invocations (a @ b) = invocations a @ invocations b"
  by (induction a rule: invocations.induct) auto

lemma renders_append [simp]: "renders (a @ b) = renders a @ renders b"
  by (induction a rule: renders.induct) auto

lemma requests_append [simp]: "requests (a @ b) = requests a @ requests b"
  by (induction a rule: requests.induct) auto

lemma invocations_Raf [simp]: "invocations (map Raf hs) = []"
  by (induction hs) auto

lemma renders_Raf [simp]: "renders (map Raf hs) = []"
  by (induction hs) auto

lemma requests_Raf [simp]: "requests (map Raf hs) = hs"
  by (induction hs) auto

lemma since_append [simp]: "trace w' = trace w @ es \<Longrightarrow> since w w' = es"
  by (simp add: since_def)

lemma trace_registerVisibilityChange [simp]: "trace (registerVisibilityChange h w) = trace w"
  by (simp add: registerVisibilityChange_def Let_def split: option.splits)

lemma trace_schedule: "\<exists>hs. trace (schedule r iv w) = trace w @ map Raf hs"
proof (cases "truthy (rafId w)")
  case True
  then have "trace (schedule r iv w) = trace w @ map Raf []"
    by (simp add: schedule_def Let_def)
  then show ?thesis by blast
next
  case False
  then have "trace (schedule r iv w) = trace w @ map Raf [Suc (lastHandle w)]"
    by (simp add: schedule_def Let_def requestAnimationFrame_def)
  then show ?thesis by blast
qed

lemma trace_drawImage: "\<exists>hs. trace (snd (drawImage h w ee iv)) = trace w @ map Raf hs"
proof -
  have z: "\<exists>hs. trace (registerVisibilityChange h w) = trace w @ map Raf hs"
    by (rule exI[of _ "[]"]) simp
  show ?thesis
    using z trace_schedule[of _ iv "registerVisibilityChange h w"]
    by (simp add: drawImage_def Let_def split: option.splits)
qed

lemma trace_addDrawCallback [simp]: "trace (addDrawCallback w el f) = trace w"
  by (simp add: addDrawCallback_def Let_def)

lemma trace_removeDrawCallback [simp]: "trace (removeDrawCallback w el f) = trace w"
  by (simp add: removeDrawCallback_def split: option.splits)



subsection \<open>A visit that renders\<close>

lemma visit_rendered:
  assumes "elementsDrawMap w ! i = (Some el, e)" "needsRedraw e" "enabled w el = Some r"
    "drawImageSync h (objects w r) (invalid (objects w r)) = Some (ob, d)"
  shows "visit h i w =
     (None, if set_size (callbacks e) = 0 then after_render i el e r ob d w
            else (let w5 = forEach_callbacks h i r 0 (after_render i el e r ob d w)
                  in w5\<lparr>rafStopTime := Some (perfNow w5 + rafStopMaxTime)\<rparr>))"
  using assms by (simp add: visit_def Let_def after_render_def elapse_def)

lemma trace_after_render [simp]:
  "trace (after_render i el e r ob d w) = trace w @ [PreRender el r (dateNow w), Render r (invalid (objects w r))]"
  by (simp add: after_render_def elapse_def)





lemma members_set_delete: "members (set_delete f cs) = removeAll f (members cs)"
  by (induction cs rule: members.induct) (auto simp: set_delete_def)

lemma distinct_set_delete: "distinct (members cs) \<Longrightarrow> distinct (members (set_delete f cs))"
  by (simp add: members_set_delete distinct_removeAll)

lemma map_fst_ensure: "map fst (ensure k m) = (if has m k then map fst m else map fst m @ [k])"
  by (simp add: ensure_def)

lemma distinct_keys_ensure: "distinct (map fst m) \<Longrightarrow> distinct (map fst (ensure k m))"
  by (auto simp: ensure_def has_def image_iff)

lemma list_all_modify:
  assumes "list_all (\<lambda>(k, e). P e) m" "\<And>e. P e \<Longrightarrow> P (f e)"
  shows "list_all (\<lambda>(k, e). P e) (modify k f m)"
  using assms by (induction m) auto

lemma list_all_ensure:
  assumes "list_all (\<lambda>(k, e). P e) m" "P \<lparr>needsRedraw = False, callbacks = []\<rparr>"
  shows "list_all (\<lambda>(k, e). P e) (ensure k m)"
  using assms by (simp add: ensure_def)


lemma well_formed_removeDrawCallback: "well_formed w \<Longrightarrow> well_formed (removeDrawCallback w el f)"
  unfolding well_formed_def removeDrawCallback_def
  by (auto intro!: list_all_modify[where P="\<lambda>e. distinct (members (callbacks e))"] distinct_set_delete
        split: option.splits)




section \<open>A page with enabled elements\<close>

text \<open>
  Concrete worlds for the theorems below: every reference \<open>r\<close> is the enabled element of the
  DOM element \<open>r\<close>, with a canvas and an image; the page has \<open>document.hidden\<close>; the renderer
  clears the \<open>invalid\<close> flag and takes no time. \<open>requested\<close> is the world after
  \<open>drawImage(e1)\<close>.
\<close>

definition surface :: "element \<Rightarrow> enabled_element" where
  "surface el = \<lparr>element = Some el, canvas = Some 0, imageOf = Some 0, layers = Some [], invalid = False\<rparr>"

definition page :: host where
  "page = \<lparr>hasHidden = True, hasMsHidden = False, hasWebkitHidden = False,
            drawImageSync = (\<lambda>ob f. Some (ob\<lparr>invalid := False\<rparr>, 0))\<rparr>"

definition start :: world where
  "start = init surface Some"

definition requested :: world where
  "requested = snd (drawImage page start (Some 1) False)"

lemma requested_eq:
  "requested = start\<lparr>rafId := Some 1, rafStopTime := Some 100,
      elementsDrawMap := [(Some 1, \<lparr>needsRedraw = True, callbacks = []\<rparr>)], registered := True,
      frames := [1], lastHandle := 1, listeners := [''visibilitychange''], trace := [Raf 1]\<rparr>"
  by (simp add: requested_def drawImage_def registerVisibilityChange_def visibilityChange_def page_def
      start_def init_def surface_def schedule_def ensure_def has_def Let_def
      requestAnimationFrame_def rafStopMaxTime_def)

definition observer :: callback where
  "observer = Callback 7 [] False"

text \<open>An enabled element with a canvas but neither an image nor a \<open>layers\<close> property.\<close>

definition bare :: world where
  "bare = start\<lparr>objects := (\<lambda>r. \<lparr>element = Some r, canvas = Some 0, imageOf = None, layers = None, invalid = False\<rparr>)\<rparr>"

text \<open>
  Two surfaces, both requested; the first has a callback that throws and one that does not,
  the second has the one that does not.
\<close>

definition thrower :: callback where
  "thrower = Callback 8 [] True"

definition two_dirty :: world where
  "two_dirty =
     addDrawCallback
       (addDrawCallback
          (addDrawCallback (snd (drawImage page requested (Some 2) False)) (Some 1) thrower)
          (Some 1) observer)
       (Some 2) observer"

text \<open>A requested surface whose callback asks for another redraw of the same surface.\<close>

definition redrawer :: callback where
  "redrawer = Callback 9 [DrawImage (Some 1) False] False"

definition looping :: world where
  "looping = addDrawCallback requested (Some 1) redrawer"

text \<open>The requested surface after its element has been disabled: the lookup fails.\<close>

definition orphaned :: world where
  "orphaned = requested\<lparr>enabled := (\<lambda>el. None)\<rparr>"

text \<open>
  The world after the first tick has rendered the requested surface, and that world 150
  milliseconds later, when the host runs the frame the first tick requested.
\<close>

definition rendered :: world where
  "rendered = snd (step page (requested\<lparr>frames := []\<rparr>))"

definition late :: world where
  "late = elapse 150 (rendered\<lparr>frames := []\<rparr>)"

text \<open>
  A page whose renderer throws, and the world in which the tick for the requested surface
  leaves the scheduler there.
\<close>

definition faulty :: host where
  "faulty = page\<lparr>drawImageSync := (\<lambda>ob f. None)\<rparr>"

definition stuck :: world where
  "stuck = snd (step faulty (requested\<lparr>frames := []\<rparr>))"

text \<open>The page at the start, with every enabled element already marked invalid.\<close>

definition stale :: world where
  "stale = start\<lparr>objects := (\<lambda>r. (surface r)\<lparr>invalid := True\<rparr>)\<rparr>"

text \<open>
  A history on the page: a request, its tick, a callback that asks for another redraw, an
  invalidating request, ten milliseconds, and the next tick; and the world it ends in.
\<close>

definition history :: "action list" where
  "history = [Draw (Some 1) False, Frame, Register (Some 1) redrawer, Draw (Some 1) True, Pass 10, Frame]"

definition busy :: world where
  "busy = the (run page history start)"

text \<open>
  A page whose renderer takes 200 milliseconds; two requested surfaces, the first with the
  callback that asks for another redraw; and a requested surface whose callback invalidates
  the second surface.
\<close>

definition slow :: host where
  "slow = page\<lparr>drawImageSync := (\<lambda>ob f. Some (ob\<lparr>invalid := False\<rparr>, 200))\<rparr>"

definition crowded :: world where
  "crowded = addDrawCallback (snd (drawImage page requested (Some 2) False)) (Some 1) redrawer"

definition meddler :: callback where
  "meddler = Callback 10 [DrawImage (Some 2) True] False"

definition meddled :: world where
  "meddled = addDrawCallback requested (Some 1) meddler"



text \<open>A callback that removes itself when it is called, registered before \<open>observer\<close>.\<close>

definition once :: callback where
  "once = Callback 13 [RemoveSelf (Some 1)] False"

definition one_shot :: world where
  "one_shot = addDrawCallback (addDrawCallback requested (Some 1) once) (Some 1) observer"



section \<open>Calls that do not pass the guard of drawImage\<close>

lemma objects_registerVisibilityChange [simp]: "objects (registerVisibilityChange h w) = objects w"
  by (simp add: registerVisibilityChange_def Let_def split: option.splits)

lemma registered_registerVisibilityChange [simp]: "registered (registerVisibilityChange h w)"
  by (simp add: registerVisibilityChange_def Let_def split: option.splits)

lemma registered_schedule [simp]: "registered (schedule r iv w) = registered w"
  by (simp add: schedule_def Let_def requestAnimationFrame_def)

lemma registered_drawImage: "registered (snd (drawImage h w ee iv))"
  by (simp add: drawImage_def Let_def split: option.splits)

lemma drawImage_raises_iff:
  "fst (drawImage h w ee iv) = None \<longleftrightarrow>
     \<not> (\<exists>r. ee = Some r \<and> canvas (objects w r) \<noteq> None \<and> imageOf (objects w r) = None \<and>
          layers (objects w r) = None)"
  by (auto simp: drawImage_def Let_def split: option.splits)

text \<open>
  C9 does not hold of the code: \<open>drawImage\<close> raises to its caller. On an enabled element
  that has a canvas, no image and no \<open>layers\<close> property, the guard evaluates
  \<open>enabledElement.layers.length\<close> on \<open>undefined\<close>, and the \<open>TypeError\<close> reaches the caller.
  The same guard returns silently for a \<open>null\<close> enabled element, for one without a canvas,
  and for one with no image and an empty \<open>layers\<close> array.
\<close>

theorem drawImage_raises_on_missing_layers:
  "fst (drawImage page bare (Some 1) False) = Some TypeError \<and>
   fst (drawImage page bare None False) = None \<and>
   fst (drawImage page (start\<lparr>objects := (\<lambda>r. (surface r)\<lparr>canvas := None\<rparr>)\<rparr>) (Some 1) False) = None \<and>
   fst (drawImage page (start\<lparr>objects := (\<lambda>r. (surface r)\<lparr>imageOf := None\<rparr>)\<rparr>) (Some 1) False) = None"
  by (simp add: drawImage_def Let_def bare_def surface_def)

text \<open>
  C10. Every call of \<open>drawImage\<close> runs \<open>registerVisibilityChange\<close> first: after any call the
  registration flag is set. A call that does not pass the guard (a \<open>null\<close> enabled element, no
  canvas, or no image and no layer) does nothing else: the world it leaves is the one
  \<open>registerVisibilityChange\<close> leaves, where the listener has been added if this was the first
  registration and \<open>document\<close> has a visibility property, and where the map, \<open>rafId\<close>,
  \<open>rafStopTime\<close>, the enabled elements (so their \<open>invalid\<close> flags), the pending frames and
  the trace are as before.
\<close>

theorem invalid_call_only_registers:
  assumes "ee = None \<or> (\<exists>r. ee = Some r \<and> (canvas (objects w r) = None \<or>
             (imageOf (objects w r) = None \<and> (layers (objects w r) = None \<or> layers (objects w r) = Some []))))"
  shows "(\<forall>ee' iv'. registered (snd (drawImage h w ee' iv'))) \<and>
         snd (drawImage h w ee iv) = registerVisibilityChange h w \<and>
         listeners (registerVisibilityChange h w) =
           (if registered w then listeners w
            else case visibilityChange h of None \<Rightarrow> listeners w | Some name \<Rightarrow> listeners w @ [name]) \<and>
         elementsDrawMap (registerVisibilityChange h w) = elementsDrawMap w \<and>
         rafId (registerVisibilityChange h w) = rafId w \<and>
         rafStopTime (registerVisibilityChange h w) = rafStopTime w \<and>
         objects (registerVisibilityChange h w) = objects w \<and>
         frames (registerVisibilityChange h w) = frames w \<and>
         trace (registerVisibilityChange h w) = trace w"
proof -
  have "snd (drawImage h w ee iv) = registerVisibilityChange h w"
    using assms by (auto simp: drawImage_def Let_def split: option.splits)
  moreover have "listeners (registerVisibilityChange h w) =
           (if registered w then listeners w
            else case visibilityChange h of None \<Rightarrow> listeners w | Some name \<Rightarrow> listeners w @ [name])"
    by (simp add: registerVisibilityChange_def Let_def split: option.splits)
  moreover have "elementsDrawMap (registerVisibilityChange h w) = elementsDrawMap w"
    "rafId (registerVisibilityChange h w) = rafId w"
    "rafStopTime (registerVisibilityChange h w) = rafStopTime w"
    "frames (registerVisibilityChange h w) = frames w"
    by (simp_all add: registerVisibilityChange_def Let_def split: option.splits)
  ultimately show ?thesis by (simp add: registered_drawImage)
qed

theorem invalid_call_only_registers_witness:
  "registered (snd (drawImage page start None True)) \<and>
   listeners (snd (drawImage page start None True)) = [''visibilitychange''] \<and>
   elementsDrawMap (snd (drawImage page start None True)) = [] \<and>
   rafId (snd (drawImage page start None True)) = None \<and>
   rafStopTime (snd (drawImage page start None True)) = None \<and>
   frames (snd (drawImage page start None True)) = [] \<and>
   trace (snd (drawImage page start None True)) = [] \<and>
   invalid (objects (snd (drawImage page start None True)) 1) = False"
proof -
  have s: "\<not> registered start" "listeners start = []" "elementsDrawMap start = []" "rafId start = None"
    "rafStopTime start = None" "frames start = []" "trace start = []" "invalid (objects start 1) = False"
    by (simp_all add: start_def init_def surface_def)
  have v: "visibilityChange page = Some ''visibilitychange''"
    by (simp add: visibilityChange_def page_def)
  from invalid_call_only_registers[of None start page True] s v show ?thesis by simp
qed

section \<open>Relations that the loop over the map keeps\<close>

text \<open>
  \<open>step\<close> is a composition of a few kinds of small steps: a call of \<open>drawImage\<close>, of
  \<open>addDrawCallback\<close> or of \<open>removeDrawCallback\<close> from a callback, time passing, an event added
  to the trace, the renderer's update of an enabled element, the clearing of an entry's
  flag, and the reset of the idle deadline. A reflexive and transitive relation that every
  small step respects therefore holds between the world before and the world after a
  callback, a visit and the whole loop. Where only the calls that obey a rule \<open>A\<close> respect
  the relation, it holds as long as the registered callbacks obey \<open>A\<close>, and they still do
  afterwards.
\<close>

lemma run_body_guarded:
  assumes refl: "\<And>w. R w w"
    and trans: "\<And>a b c. R a b \<Longrightarrow> R b c \<Longrightarrow> R a c"
    and draw: "\<And>w ee iv. A (DrawImage ee iv) \<Longrightarrow> R w (snd (drawImage h w ee iv))"
    and reg: "\<And>w el g. A (AddDrawCallback el g) \<Longrightarrow> R w (addDrawCallback w el g)"
    and unreg: "\<And>w el g. A (RemoveDrawCallback el g) \<or> A (RemoveSelf el) \<Longrightarrow> R w (removeDrawCallback w el g)"
    and wait: "\<And>w d. R w (elapse d w)"
    and scripts: "\<forall>c\<in>set cs. A c"
  shows "R w (snd (run_body h f cs w))"
  using scripts
proof (induction cs arbitrary: w)
  case Nil
  show ?case by (simp add: refl)
next
  case (Cons c cs)
  then have ih: "\<And>w. R w (snd (run_body h f cs w))" by simp
  show ?case
  proof (cases c)
    case (Elapse d)
    from trans[OF wait[of w d] ih[of "elapse d w"]] Elapse show ?thesis by simp
  next
    case (DrawImage ee iv)
    obtain err w' where d: "drawImage h w ee iv = (err, w')" by (cases "drawImage h w ee iv")
    from Cons(2) DrawImage have "A (DrawImage ee iv)" by simp
    from draw[OF this, of w] d have r: "R w w'" by simp
    show ?thesis
    proof (cases err)
      case (Some e)
      with d r DrawImage show ?thesis by simp
    next
      case None
      from trans[OF r ih[of w']] None d DrawImage show ?thesis by simp
    qed
  next
    case (AddDrawCallback el g)
    with Cons(2) have "A (AddDrawCallback el g)" by simp
    from trans[OF reg[OF this, of w] ih[of "addDrawCallback w el g"]] AddDrawCallback
    show ?thesis by simp
  next
    case (RemoveDrawCallback el g)
    with Cons(2) have "A (RemoveDrawCallback el g) \<or> A (RemoveSelf el)" by simp
    from trans[OF unreg[OF this, of w] ih[of "removeDrawCallback w el g"]] RemoveDrawCallback
    show ?thesis by simp
  next
    case (RemoveSelf el)
    with Cons(2) have "A (RemoveDrawCallback el f) \<or> A (RemoveSelf el)" by simp
    from trans[OF unreg[OF this, of w] ih[of "removeDrawCallback w el f"]] RemoveSelf
    show ?thesis by simp
  qed
qed

lemma obeys_True: "obeys (\<lambda>c. True) f" and obeys_call_True: "obeys_call (\<lambda>c. True) c"
  by (induction f and c) (auto simp: list_all_iff)

lemma obeys_body: "obeys A f \<Longrightarrow> \<forall>c\<in>set (body f). obeys_call A c"
  by (cases f) (simp add: list_all_iff)

lemma obeys_call_rule: "obeys_call A c \<Longrightarrow> A c"
  by (cases c) simp_all

lemma scripted_list_all:
  "scripted A w = list_all (\<lambda>(k, e). \<forall>f\<in>set (members (callbacks e)). obeys A f) (elementsDrawMap w)"
  by (auto simp: scripted_def cbs_def list_all_iff)

lemma scripted_True: "scripted (\<lambda>c. True) w"
  by (simp add: scripted_def obeys_True)

lemma scripted_same: "cbs w' = cbs w \<Longrightarrow> scripted A w' = scripted A w"
  by (simp add: scripted_def)

lemma scripted_drawImage: "scripted A w \<Longrightarrow> scripted A (snd (drawImage h w ee iv))"
proof -
  assume s: "scripted A w"
  from cbs_drawImage[of h w ee iv] obtain n where "cbs (snd (drawImage h w ee iv)) = cbs w @ replicate n []"
    by blast
  with s show ?thesis by (auto simp: scripted_def)
qed

lemma scripted_addDrawCallback:
  assumes "scripted A w" "obeys A g"
  shows "scripted A (addDrawCallback w el g)"
proof (cases "el = None")
  case True
  with assms(1) show ?thesis by (simp add: addDrawCallback_def)
next
  case False
  let ?P = "\<lambda>e. \<forall>f\<in>set (members (callbacks e)). obeys A f"
  have "list_all (\<lambda>(k, e). ?P e)
      (modify el (\<lambda>e. e\<lparr>callbacks := set_add g (callbacks e)\<rparr>) (ensure el (elementsDrawMap w)))"
  proof (rule list_all_modify[where P="?P"])
    show "list_all (\<lambda>(k, e). ?P e) (ensure el (elementsDrawMap w))"
      using assms(1) by (intro list_all_ensure[where P="?P"]) (simp_all add: scripted_list_all)
    show "?P e \<Longrightarrow> ?P (e\<lparr>callbacks := set_add g (callbacks e)\<rparr>)" for e
      using assms(2) by (auto simp: set_add_def)
  qed
  moreover from False obtain x where "el = Some x" by auto
  ultimately show ?thesis by (simp add: scripted_list_all addDrawCallback_def Let_def)
qed

lemma scripted_removeDrawCallback:
  assumes "scripted A w"
  shows "scripted A (removeDrawCallback w el g)"
proof (cases "el = None \<or> get (elementsDrawMap w) el = None")
  case True
  with assms show ?thesis by (auto simp: removeDrawCallback_def)
next
  case False
  let ?P = "\<lambda>e. \<forall>f\<in>set (members (callbacks e)). obeys A f"
  have "list_all (\<lambda>(k, e). ?P e)
      (modify el (\<lambda>e. e\<lparr>callbacks := set_delete g (callbacks e)\<rparr>) (elementsDrawMap w))"
  proof (rule list_all_modify[where P="?P"])
    show "list_all (\<lambda>(k, e). ?P e) (elementsDrawMap w)"
      using assms by (simp add: scripted_list_all)
    show "?P e \<Longrightarrow> ?P (e\<lparr>callbacks := set_delete g (callbacks e)\<rparr>)" for e
      by (simp add: members_set_delete)
  qed
  moreover from False obtain x y where "el = Some x" "get (elementsDrawMap w) el = Some y" by auto
  ultimately show ?thesis by (simp add: scripted_list_all removeDrawCallback_def)
qed

lemma scripted_run_body:
  assumes "\<forall>c\<in>set cs. obeys_call A c"
  shows "scripted A w \<longrightarrow> scripted A (snd (run_body h f cs w))"
proof (rule run_body_guarded[where A="obeys_call A" and R="\<lambda>w w'. scripted A w \<longrightarrow> scripted A w'"], goal_cases)
  case (1 w)
  show ?case by blast
next
  case (2 a b c)
  then show ?case by blast
next
  case (3 w ee iv)
  show ?case using scripted_drawImage[of A w h ee iv] by blast
next
  case (4 w el g)
  then have "obeys A g" by simp
  then show ?case using scripted_addDrawCallback[of A w g el] by blast
next
  case (5 w el g)
  show ?case using scripted_removeDrawCallback[of A w el g] by blast
next
  case (6 w d)
  have "cbs (elapse d w) = cbs w" by simp
  from scripted_same[OF this, of A] show ?case by simp
next
  case 7
  show ?case by (rule assms)
qed

lemma scripted_member:
  assumes "scripted A w" "i < length (elementsDrawMap w)"
    "p < length (callbacks (snd (elementsDrawMap w ! i)))" "callbacks (snd (elementsDrawMap w ! i)) ! p = Some f"
  shows "obeys A f"
proof -
  have "callbacks (snd (elementsDrawMap w ! i)) \<in> set (cbs w)"
    using assms(2) by (auto simp: cbs_def case_prod_unfold intro!: image_eqI[where x="elementsDrawMap w ! i"])
  moreover have "Some f \<in> set (callbacks (snd (elementsDrawMap w ! i)))"
    using nth_mem[OF assms(3)] assms(4) by simp
  then have "f \<in> set (members (callbacks (snd (elementsDrawMap w ! i))))"
    by (simp add: members_iff)
  ultimately show ?thesis using assms(1) unfolding scripted_def by blast
qed

lemma rafcb_guarded:
  assumes refl: "\<And>w. R w w"
    and trans: "\<And>a b c. R a b \<Longrightarrow> R b c \<Longrightarrow> R a c"
    and draw: "\<And>w ee iv. A (DrawImage ee iv) \<Longrightarrow> R w (snd (drawImage h w ee iv))"
    and reg: "\<And>w el g. A (AddDrawCallback el g) \<Longrightarrow> R w (addDrawCallback w el g)"
    and unreg: "\<And>w el g. A (RemoveDrawCallback el g) \<or> A (RemoveSelf el) \<Longrightarrow> R w (removeDrawCallback w el g)"
    and wait: "\<And>w d. R w (elapse d w)"
    and call: "\<And>w f. R w (w\<lparr>trace := trace w @ [Invoke f r]\<rparr>)"
    and scripts: "\<forall>c\<in>set (body f). A c"
  shows "R w (snd (rafcb h r f w))"
proof -
  have "R (w\<lparr>trace := trace w @ [Invoke f r]\<rparr>) (snd (rafcb h r f w))"
    unfolding snd_rafcb by (rule run_body_guarded[where A=A and R=R, OF refl trans draw reg unreg wait scripts])
  from trans[OF call this] show ?thesis .
qed

lemma scripted_rafcb:
  assumes "scripted A w" "obeys A f"
  shows "scripted A (snd (rafcb h r f w))"
proof -
  have "scripted A (w\<lparr>trace := trace w @ [Invoke f r]\<rparr>)"
    using assms(1) by (simp add: scripted_def cbs_def)
  with scripted_run_body[OF obeys_body[OF assms(2)], of "w\<lparr>trace := trace w @ [Invoke f r]\<rparr>" h f]
  show ?thesis by (simp add: snd_rafcb)
qed

lemma forEach_callbacks_guarded:
  assumes refl: "\<And>w. R w w"
    and trans: "\<And>a b c. R a b \<Longrightarrow> R b c \<Longrightarrow> R a c"
    and draw: "\<And>w ee iv. A (DrawImage ee iv) \<Longrightarrow> R w (snd (drawImage h w ee iv))"
    and reg: "\<And>w el g. A (AddDrawCallback el g) \<Longrightarrow> R w (addDrawCallback w el g)"
    and unreg: "\<And>w el g. A (RemoveDrawCallback el g) \<or> A (RemoveSelf el) \<Longrightarrow> R w (removeDrawCallback w el g)"
    and wait: "\<And>w d. R w (elapse d w)"
    and call: "\<And>w f. R w (w\<lparr>trace := trace w @ [Invoke f r]\<rparr>)"
  shows "scripted A w \<longrightarrow>
         R w (forEach_callbacks h i r p w) \<and> scripted A (forEach_callbacks h i r p w)"
proof (induction p w rule: forEach_callbacks_induct[where h=h and i=i and r=r])
  case (step p w)
  show ?case
  proof (intro impI)
    assume s: "scripted A w"
    show "R w (forEach_callbacks h i r p w) \<and> scripted A (forEach_callbacks h i r p w)"
    proof (cases "i < length (elementsDrawMap w) \<and> p < length (callbacks (snd (elementsDrawMap w ! i)))")
      case False
      with s show ?thesis by (simp add: forEach_callbacks_end refl)
    next
      case True
      then have ip: "i < length (elementsDrawMap w)" "p < length (callbacks (snd (elementsDrawMap w ! i)))"
        by simp_all
      show ?thesis
      proof (cases "callbacks (snd (elementsDrawMap w ! i)) ! p")
        case None
        from step(1)[OF ip None] s show ?thesis by (simp add: forEach_callbacks_hole[OF ip None])
      next
        case (Some f)
        let ?w = "snd (rafcb h r f w)"
        have o: "obeys A f" by (rule scripted_member[OF s ip Some])
        have sc: "\<forall>c\<in>set (body f). A c"
          using obeys_body[OF o] obeys_call_rule by blast
        have r: "R w ?w"
          by (rule rafcb_guarded[where A=A and R=R, OF refl trans draw reg unreg wait call sc])
        have s': "scripted A ?w" by (rule scripted_rafcb[OF s o])
        from step(2)[OF ip Some] s' have "R ?w (forEach_callbacks h i r (Suc p) ?w)"
          "scripted A (forEach_callbacks h i r (Suc p) ?w)" by simp_all
        with trans[OF r] show ?thesis by (simp add: forEach_callbacks_call[OF ip Some])
      qed
    qed
  qed
qed

lemma after_render_steps:
  "after_render i el e r ob d w =
     (let w1 = w\<lparr>trace := trace w @ [PreRender el r (dateNow w)]\<rparr>;
          w2 = w1\<lparr>trace := trace w1 @ [Render r (invalid (objects w1 r))]\<rparr>;
          w3 = w2\<lparr>objects := (objects w2)(r := ob)\<rparr>;
          w4 = elapse d w3
      in w4\<lparr>elementsDrawMap := (elementsDrawMap w4)[i := (Some el, e\<lparr>needsRedraw := False\<rparr>)]\<rparr>)"
  by (simp add: after_render_def Let_def elapse_def)

lemma cbs_after_render:
  "i < length (elementsDrawMap w) \<Longrightarrow> elementsDrawMap w ! i = (Some el, e) \<Longrightarrow>
   cbs (after_render i el e r ob d w) = cbs w"
  using cbs_update_needsRedraw[of i "elementsDrawMap w" "Some el" e False]
  by (simp add: after_render_def cbs_def elapse_def)

lemma visit_cases:
  assumes "i < length (elementsDrawMap w)"
  obtains (skip) "visit h i w = (None, w)"
  | (throw) el e r where "elementsDrawMap w ! i = (Some el, e)" "needsRedraw e" "enabled w el = Some r"
      "drawImageSync h (objects w r) (invalid (objects w r)) = None"
      "visit h i w = (Some RenderError, w\<lparr>trace := trace w @ [PreRender el r (dateNow w), Render r (invalid (objects w r))]\<rparr>)"
  | (render) el e r ob d where "elementsDrawMap w ! i = (Some el, e)" "needsRedraw e" "enabled w el = Some r"
      "drawImageSync h (objects w r) (invalid (objects w r)) = Some (ob, d)"
      "visit h i w =
         (None, if set_size (callbacks e) = 0 then after_render i el e r ob d w
            else (let w5 = forEach_callbacks h i r 0 (after_render i el e r ob d w)
                  in w5\<lparr>rafStopTime := Some (perfNow w5 + rafStopMaxTime)\<rparr>))"
proof -
  obtain k e where ke: "elementsDrawMap w ! i = (k, e)" by (cases "elementsDrawMap w ! i")
  show ?thesis
  proof (cases "\<exists>el r. k = Some el \<and> needsRedraw e \<and> enabled w el = Some r")
    case False
    then have "visit h i w = (None, w)"
      by (auto simp: visit_def ke split: option.splits)
    then show ?thesis by (rule skip)
  next
    case True
    then obtain el r where t: "k = Some el" "needsRedraw e" "enabled w el = Some r" by blast
    show ?thesis
    proof (cases "drawImageSync h (objects w r) (invalid (objects w r))")
      case None
      with t ke show ?thesis by (intro throw[of el e r]) (simp_all add: visit_def Let_def)
    next
      case (Some p)
      obtain ob d where p: "p = (ob, d)" by (cases p)
      from ke t Some p show ?thesis
        by (intro render[of el e r ob d] visit_rendered) simp_all
    qed
  qed
qed

lemma visit_guarded:
  assumes refl: "\<And>w. R w w"
    and trans: "\<And>a b c. R a b \<Longrightarrow> R b c \<Longrightarrow> R a c"
    and draw: "\<And>w ee iv. A (DrawImage ee iv) \<Longrightarrow> R w (snd (drawImage h w ee iv))"
    and reg: "\<And>w el g. A (AddDrawCallback el g) \<Longrightarrow> R w (addDrawCallback w el g)"
    and unreg: "\<And>w el g. A (RemoveDrawCallback el g) \<or> A (RemoveSelf el) \<Longrightarrow> R w (removeDrawCallback w el g)"
    and wait: "\<And>w d. R w (elapse d w)"
    and call: "\<And>w f r. R w (w\<lparr>trace := trace w @ [Invoke f r]\<rparr>)"
    and announce: "\<And>w el r t. R w (w\<lparr>trace := trace w @ [PreRender el r t]\<rparr>)"
    and render: "\<And>w el e r. i < length (elementsDrawMap w) \<Longrightarrow> elementsDrawMap w ! i = (Some el, e) \<Longrightarrow>
        needsRedraw e \<Longrightarrow> enabled w el = Some r \<Longrightarrow>
        R w (w\<lparr>trace := trace w @ [Render r (invalid (objects w r))]\<rparr>)"
    and paint: "\<And>w el e r ob d. i < length (elementsDrawMap w) \<Longrightarrow> elementsDrawMap w ! i = (Some el, e) \<Longrightarrow>
        needsRedraw e \<Longrightarrow> enabled w el = Some r \<Longrightarrow>
        drawImageSync h (objects w r) (invalid (objects w r)) = Some (ob, d) \<Longrightarrow>
        R w (w\<lparr>objects := (objects w)(r := ob)\<rparr>)"
    and clear: "\<And>w el e r. i < length (elementsDrawMap w) \<Longrightarrow> elementsDrawMap w ! i = (Some el, e) \<Longrightarrow>
        needsRedraw e \<Longrightarrow> enabled w el = Some r \<Longrightarrow>
        R w (w\<lparr>elementsDrawMap := (elementsDrawMap w)[i := (Some el, e\<lparr>needsRedraw := False\<rparr>)]\<rparr>)"
    and extend: "\<And>w. R w (w\<lparr>rafStopTime := Some (perfNow w + rafStopMaxTime)\<rparr>)"
    and i: "i < length (elementsDrawMap w)"
    and scripts: "scripted A w"
  shows "R w (snd (visit h i w)) \<and> scripted A (snd (visit h i w))"
using i proof (cases rule: visit_cases[of i w h])
  case skip
  with scripts show ?thesis by (simp add: refl)
next
  case (throw el e r)
  define w1 where "w1 = w\<lparr>trace := trace w @ [PreRender el r (dateNow w)]\<rparr>"
  have a: "R w w1" unfolding w1_def by (rule announce)
  have "R w1 (w1\<lparr>trace := trace w1 @ [Render r (invalid (objects w1 r))]\<rparr>)"
    by (rule render[of w1 el e r]) (simp_all add: w1_def throw i)
  from trans[OF a this] have "R w (snd (visit h i w))" by (simp add: throw w1_def)
  moreover have "scripted A (snd (visit h i w))"
    using scripts by (simp add: throw scripted_def cbs_def)
  ultimately show ?thesis ..
next
  case (render el e r ob d)
  define w1 where "w1 = w\<lparr>trace := trace w @ [PreRender el r (dateNow w)]\<rparr>"
  define w2 where "w2 = w1\<lparr>trace := trace w1 @ [Render r (invalid (objects w1 r))]\<rparr>"
  define w3 where "w3 = w2\<lparr>objects := (objects w2)(r := ob)\<rparr>"
  define w4 where "w4 = elapse d w3"
  define w5 where "w5 = w4\<lparr>elementsDrawMap := (elementsDrawMap w4)[i := (Some el, e\<lparr>needsRedraw := False\<rparr>)]\<rparr>"
  have ar: "after_render i el e r ob d w = w5"
    by (simp add: after_render_steps Let_def w1_def w2_def w3_def w4_def w5_def)
  have 1: "R w w1" unfolding w1_def by (rule announce)
  have 2: "R w1 w2" unfolding w2_def
    by (rule assms(9)[of w1 el e r]) (simp_all add: w1_def render i)
  have 3: "R w2 w3" unfolding w3_def
    by (rule paint[of w2 el e r ob d]) (simp_all add: w1_def w2_def render i)
  have 4: "R w3 w4" unfolding w4_def by (rule wait)
  have 5: "R w4 w5" unfolding w5_def
    by (rule clear[of w4 el e r]) (simp_all add: w1_def w2_def w3_def w4_def elapse_def render i)
  have r5: "R w w5" using 1 2 3 4 5 trans by blast
  have s5: "scripted A w5"
    using scripts cbs_after_render[OF i render(1), of r ob d] unfolding ar by (simp add: scripted_def)
  show ?thesis
  proof (cases "set_size (callbacks e) = 0")
    case True
    with r5 s5 show ?thesis by (simp add: render ar)
  next
    case False
    define w6 where "w6 = forEach_callbacks h i r 0 w5"
    have "scripted A w5 \<longrightarrow> R w5 (forEach_callbacks h i r 0 w5) \<and> scripted A (forEach_callbacks h i r 0 w5)"
      by (rule forEach_callbacks_guarded[where A=A and R=R, OF refl trans draw reg unreg wait call])
    with s5 have 6: "R w5 w6" and s6: "scripted A w6" unfolding w6_def by simp_all
    have 7: "R w6 (w6\<lparr>rafStopTime := Some (perfNow w6 + rafStopMaxTime)\<rparr>)" by (rule extend)
    from r5 6 7 trans have "R w (w6\<lparr>rafStopTime := Some (perfNow w6 + rafStopMaxTime)\<rparr>)" by blast
    moreover have "scripted A (w6\<lparr>rafStopTime := Some (perfNow w6 + rafStopMaxTime)\<rparr>)"
      using s6 by (simp add: scripted_def cbs_def)
    ultimately show ?thesis using False by (simp add: render ar w6_def Let_def)
  qed
qed

lemma visit_preorder:
  assumes refl: "\<And>w. R w w"
    and trans: "\<And>a b c. R a b \<Longrightarrow> R b c \<Longrightarrow> R a c"
    and draw: "\<And>w ee iv. R w (snd (drawImage h w ee iv))"
    and reg: "\<And>w el g. R w (addDrawCallback w el g)"
    and unreg: "\<And>w el g. R w (removeDrawCallback w el g)"
    and wait: "\<And>w d. R w (elapse d w)"
    and call: "\<And>w f r. R w (w\<lparr>trace := trace w @ [Invoke f r]\<rparr>)"
    and announce: "\<And>w el r t. R w (w\<lparr>trace := trace w @ [PreRender el r t]\<rparr>)"
    and render: "\<And>w el e r. i < length (elementsDrawMap w) \<Longrightarrow> elementsDrawMap w ! i = (Some el, e) \<Longrightarrow>
        needsRedraw e \<Longrightarrow> enabled w el = Some r \<Longrightarrow>
        R w (w\<lparr>trace := trace w @ [Render r (invalid (objects w r))]\<rparr>)"
    and paint: "\<And>w el e r ob d. i < length (elementsDrawMap w) \<Longrightarrow> elementsDrawMap w ! i = (Some el, e) \<Longrightarrow>
        needsRedraw e \<Longrightarrow> enabled w el = Some r \<Longrightarrow>
        drawImageSync h (objects w r) (invalid (objects w r)) = Some (ob, d) \<Longrightarrow>
        R w (w\<lparr>objects := (objects w)(r := ob)\<rparr>)"
    and clear: "\<And>w el e r. i < length (elementsDrawMap w) \<Longrightarrow> elementsDrawMap w ! i = (Some el, e) \<Longrightarrow>
        needsRedraw e \<Longrightarrow> enabled w el = Some r \<Longrightarrow>
        R w (w\<lparr>elementsDrawMap := (elementsDrawMap w)[i := (Some el, e\<lparr>needsRedraw := False\<rparr>)]\<rparr>)"
    and extend: "\<And>w. R w (w\<lparr>rafStopTime := Some (perfNow w + rafStopMaxTime)\<rparr>)"
    and i: "i < length (elementsDrawMap w)"
  shows "R w (snd (visit h i w))"
proof -
  have "R w (snd (visit h i w)) \<and> scripted (\<lambda>c. True) (snd (visit h i w))"
    by (rule visit_guarded[where A="\<lambda>c. True" and R=R,
          OF refl trans draw reg unreg wait call announce render paint clear extend i scripted_True])
  then show ?thesis ..
qed

lemma drain_preorder:
  assumes refl: "\<And>w. R w w"
    and trans: "\<And>a b c. R a b \<Longrightarrow> R b c \<Longrightarrow> R a c"
    and visit: "\<And>i w. Q i \<Longrightarrow> i < length (elementsDrawMap w) \<Longrightarrow> R w (snd (visit h i w))"
    and up: "\<And>i. Q i \<Longrightarrow> Q (Suc i)"
    and "Q i"
  shows "R w (snd (drain h i w))"
proof -
  have "Q i \<longrightarrow> R w (snd (drain h' i w)) \<or> h' \<noteq> h" for h'
  proof (induction h' i w rule: drain.induct)
    case (1 h' i w)
    show ?case
    proof (cases "Q i \<and> h' = h")
      case False
      then show ?thesis by blast
    next
      case qh: True
      show ?thesis
      proof (cases "i < length (elementsDrawMap w)")
        case False
        then show ?thesis by (subst drain.simps) (simp add: refl)
      next
        case True
        obtain err w' where v: "visit h i w = (err, w')" by (cases "visit h i w")
        from visit[of i w] qh True v have r: "R w w'" by simp
        show ?thesis
        proof (cases err)
          case (Some e)
          with True v r qh show ?thesis by (subst drain.simps) simp
        next
          case None
          with 1[of None w'] True v qh up[of i] have "R w' (snd (drain h (Suc i) w'))"
            by auto
          from trans[OF r this] None True v qh show ?thesis by (subst drain.simps) simp
        qed
      qed
    qed
  qed
  with assms(5) show ?thesis by blast
qed

section \<open>Callbacks during a tick\<close>


lemma drain_step: "i < length (elementsDrawMap w) \<Longrightarrow> fst (visit h i w) = None \<Longrightarrow>
   drain h i w = drain h (Suc i) (snd (visit h i w))"
  by (subst drain.simps) (auto split: prod.splits)


















text \<open>
  The spec's scenario: the first surface's callback throws, the second surface's callback
  still runs in the same tick, and both surfaces are rendered.
\<close>

lemma throwing_callback_scenario:
  "fst (step page two_dirty) = None \<and>
   invocations (since two_dirty (snd (step page two_dirty))) = [(thrower, 1), (observer, 1), (observer, 2)] \<and>
   renders (since two_dirty (snd (step page two_dirty))) = [(1, False), (2, False)]"
  by code_simp

text \<open>
  A callback that removes itself is called, the callback after it is still called in the
  same tick, and afterwards only that one is left in the set.
\<close>

lemma one_shot_scenario:
  "invocations (since one_shot (snd (step page one_shot))) = [(once, 1), (observer, 1)] \<and>
   members (callbacks (snd (elementsDrawMap (snd (step page one_shot)) ! 0))) = [observer]"
  by code_simp

section \<open>Callback registration\<close>




section \<open>rafId during a tick\<close>

lemma quiet_refl: "quiet w w"
  by (simp add: quiet_def)

lemma quiet_trans: "quiet a b \<Longrightarrow> quiet b c \<Longrightarrow> quiet a c"
  by (auto simp: quiet_def)

lemma quiet_log: "requests es = [] \<Longrightarrow> quiet w (w\<lparr>trace := trace w @ es\<rparr>)"
  by (simp add: quiet_def)

lemma quiet_registerVisibilityChange: "quiet w (registerVisibilityChange h w)"
  by (simp add: quiet_def registerVisibilityChange_def Let_def split: option.splits)

lemma rafId_registerVisibilityChange [simp]: "rafId (registerVisibilityChange h w) = rafId w"
  by (simp add: registerVisibilityChange_def Let_def split: option.splits)

lemma quiet_schedule: "truthy (rafId w) \<Longrightarrow> quiet w (schedule r iv w)"
  by (simp add: quiet_def schedule_def Let_def)

lemma quiet_drawImage: "truthy (rafId w) \<Longrightarrow> quiet w (snd (drawImage h w ee iv))"
  using quiet_registerVisibilityChange[of w h]
    quiet_trans[OF quiet_registerVisibilityChange[of w h] quiet_schedule[of "registerVisibilityChange h w" _ iv]]
  by (simp add: drawImage_def Let_def split: option.splits)

lemma quiet_drain:
  "truthy (rafId w) \<longrightarrow> quiet w (snd (drain h i w))"
proof (rule drain_preorder[where Q="\<lambda>i. True" and R="\<lambda>w w'. truthy (rafId w) \<longrightarrow> quiet w w'"])
  fix i and w :: world
  assume "i < length (elementsDrawMap w)"
  then show "truthy (rafId w) \<longrightarrow> quiet w (snd (visit h i w))"
    by (rule visit_preorder[where R="\<lambda>w w'. truthy (rafId w) \<longrightarrow> quiet w w'", rotated -1])
       (auto simp: quiet_def quiet_drawImage[unfolded quiet_def] elapse_def)
qed (auto simp: quiet_def)

text \<open>
  C2, as stated, fails: \<open>step\<close> does not clear \<open>rafId\<close> before it processes the entries. In
  the world \<open>looping\<close> the tick renders the surface and calls its callback, which calls
  \<open>drawImage\<close>; after the loop over the map \<open>rafId\<close> is still the handle of the frame that
  is running, and the callback's \<open>drawImage\<close> has requested no frame. The one request of the
  tick is made at the end of \<open>step\<close>.
\<close>

theorem rafId_kept_counterexample:
  "rafId (snd (drain page 0 looping)) = Some 1 \<and>
   invocations (since looping (snd (drain page 0 looping))) = [(redrawer, 1)] \<and>
   requests (since looping (snd (drain page 0 looping))) = [] \<and>
   requests (since looping (snd (step page looping))) = [2]"
  by code_simp

text \<open>
  C2, amended. While \<open>step\<close> processes the entries it leaves \<open>rafId\<close> alone: if \<open>rafId\<close>
  holds a handle when the loop starts, it holds the same handle when the loop ends, the
  pending frames are the same, and no \<open>drawImage\<close> issued during the tick has requested a
  frame.
\<close>

theorem rafId_kept_while_draining:
  assumes "truthy (rafId w)"
  shows "rafId (snd (drain h i w)) = rafId w \<and> frames (snd (drain h i w)) = frames w \<and>
         requests (since w (snd (drain h i w))) = []"
  using quiet_drain[of w h i] assms by (auto simp: quiet_def)

theorem rafId_kept_while_draining_witness:
  "truthy (rafId looping) \<and> rafId (snd (drain page 0 looping)) = rafId looping \<and>
   frames (snd (drain page 0 looping)) = frames looping \<and>
   requests (since looping (snd (drain page 0 looping))) = []"
proof -
  have t: "truthy (rafId looping)"
    by (simp add: looping_def requested_eq addDrawCallback_def Let_def)
  from rafId_kept_while_draining[OF t] t show ?thesis by simp
qed

section \<open>An element that does not resolve\<close>










section \<open>The end of a tick\<close>

lemma visit_idle: "idle w \<Longrightarrow> i < length (elementsDrawMap w) \<Longrightarrow> visit h i w = (None, w)"
  by (auto simp: idle_def list_all_length visit_def case_prod_unfold Let_def split: option.splits)

lemma drain_idle: "idle w \<Longrightarrow> drain h i w = (None, w)"
proof (induction "length (elementsDrawMap w) - i" arbitrary: i)
  case 0
  then show ?case by (subst drain.simps) simp
next
  case (Suc n)
  then have i: "i < length (elementsDrawMap w)" by simp
  from Suc have "drain h (Suc i) w = (None, w)" by simp
  with i visit_idle[OF Suc(3) i] show ?case by (subst drain.simps) simp
qed

lemma deadline_test: "(truthy (rafStopTime w) \<and> perfNow w < the (rafStopTime w)) = ahead w"
  by (cases "rafStopTime w") (auto simp: ahead_def)

lemma step_end:
  assumes "drain h 0 w = (None, w')"
  shows "step h w = (None, if ahead w' then (snd (requestAnimationFrame w'))\<lparr>rafId := Some (Suc (lastHandle w'))\<rparr>
                           else stopRaf w')"
  using assms by (simp add: step_def deadline_test requestAnimationFrame_def Let_def)

lemma since_requestAnimationFrame:
  "since w ((snd (requestAnimationFrame w))\<lparr>rafId := x\<rparr>) = [Raf (Suc (lastHandle w))]"
  by (simp add: since_def requestAnimationFrame_def Let_def)

lemma since_stopRaf: "requests (since w (stopRaf w)) = []"
  by (simp add: since_def stopRaf_def cancelAnimationFrame_def Let_def)

lemma dormant_stopRaf: "frames w = [] \<Longrightarrow> dormant (stopRaf w)"
  by (simp add: dormant_def stopRaf_def cancelAnimationFrame_def Let_def)

lemma dormant_kept:
  assumes "dormant v"
  shows "fire h v = None" "dormant (addDrawCallback v el f)" "dormant (removeDrawCallback v el f)"
    "dormant (elapse d v)" "dormant (onVisibilityChange True v)"
  using assms
  by (simp_all add: dormant_def fire_def addDrawCallback_def removeDrawCallback_def elapse_def
      onVisibilityChange_def stopRaf_def Let_def split: option.splits)

lemma dormant_woken:
  assumes "dormant v"
  shows "\<not> dormant (onVisibilityChange False v)"
    "canvas (objects v r) \<noteq> None \<Longrightarrow> imageOf (objects v r) \<noteq> None \<Longrightarrow>
       \<not> dormant (snd (drawImage h v (Some r) iv))"
proof -
  show "\<not> dormant (onVisibilityChange False v)"
    by (simp add: dormant_def onVisibilityChange_def stopRaf_def requestAnimationFrame_def Let_def)
  have "rafId (registerVisibilityChange h v) = None" using assms by (simp add: dormant_def)
  then have "rafId (schedule r iv (registerVisibilityChange h v)) \<noteq> None"
    by (simp add: schedule_def requestAnimationFrame_def Let_def)
  then show "canvas (objects v r) \<noteq> None \<Longrightarrow> imageOf (objects v r) \<noteq> None \<Longrightarrow>
       \<not> dormant (snd (drawImage h v (Some r) iv))"
    by (auto simp: drawImage_def Let_def dormant_def)
qed

text \<open>
  C8. When the loop over the map ends without an exception, \<open>step\<close> requests a new frame
  exactly when the idle deadline is still in the future; it then records the new handle
  in \<open>rafId\<close>, and otherwise it calls \<open>stopRaf\<close> and \<open>rafId\<close> is \<open>null\<close>. A tick that finds no
  dirty entry when the deadline has passed changes nothing but that: it requests nothing
  and leaves the scheduler dormant. A dormant scheduler has no frame to run, and
  registering or removing callbacks, time passing and the page becoming hidden keep it
  dormant; the page becoming visible or a \<open>drawImage\<close> that passes the guard wake it.
\<close>

theorem tick_end:
  assumes "drain h 0 w = (None, w')"
  shows "(requests (since w' (snd (step h w))) \<noteq> [] \<longleftrightarrow> ahead w') \<and>
         (ahead w' \<longrightarrow>
            snd (step h w) = (snd (requestAnimationFrame w'))\<lparr>rafId := Some (Suc (lastHandle w'))\<rparr> \<and>
            requests (since w' (snd (step h w))) = [Suc (lastHandle w')] \<and>
            rafId (snd (step h w)) = Some (Suc (lastHandle w')) \<and>
            frames (snd (step h w)) = frames w' @ [Suc (lastHandle w')]) \<and>
         (\<not> ahead w' \<longrightarrow> snd (step h w) = stopRaf w' \<and> rafId (snd (step h w)) = None) \<and>
         (idle w \<and> frames w = [] \<and> \<not> ahead w \<longrightarrow>
            w' = w \<and> dormant (snd (step h w)) \<and> since w (snd (step h w)) = since w (stopRaf w) \<and>
            requests (since w (snd (step h w))) = []) \<and>
         (\<forall>v. dormant v \<longrightarrow>
            fire h v = None \<and> dormant (addDrawCallback v el f) \<and> dormant (removeDrawCallback v el f) \<and>
            dormant (elapse d v) \<and> dormant (onVisibilityChange True v) \<and>
            \<not> dormant (onVisibilityChange False v) \<and>
            (\<forall>r iv. canvas (objects v r) \<noteq> None \<and> imageOf (objects v r) \<noteq> None \<longrightarrow>
               \<not> dormant (snd (drawImage h v (Some r) iv))))"
proof -
  note s = step_end[OF assms]
  have a: "ahead w' \<Longrightarrow> requests (since w' (snd (step h w))) = [Suc (lastHandle w')]"
    by (simp add: s since_requestAnimationFrame)
  have b: "\<not> ahead w' \<Longrightarrow> requests (since w' (snd (step h w))) = []"
    by (simp add: s since_stopRaf)
  have c: "ahead w' \<Longrightarrow> rafId (snd (step h w)) = Some (Suc (lastHandle w')) \<and>
      frames (snd (step h w)) = frames w' @ [Suc (lastHandle w')]"
    by (simp add: s requestAnimationFrame_def Let_def)
  have d: "\<not> ahead w' \<Longrightarrow> rafId (snd (step h w)) = None"
    by (simp add: s stopRaf_def)
  have e: "w' = w \<and> dormant (snd (step h w)) \<and> since w (snd (step h w)) = since w (stopRaf w) \<and>
      requests (since w (snd (step h w))) = []"
    if "idle w" "frames w = []" "\<not> ahead w"
  proof -
    from drain_idle[OF that(1), of h 0] assms have w: "w' = w" by simp
    with that s show ?thesis by (simp add: dormant_stopRaf since_stopRaf)
  qed
  have k: "fire h v = None \<and> dormant (addDrawCallback v el f) \<and> dormant (removeDrawCallback v el f) \<and>
            dormant (elapse d v) \<and> dormant (onVisibilityChange True v) \<and>
            \<not> dormant (onVisibilityChange False v) \<and>
            (\<forall>r iv. canvas (objects v r) \<noteq> None \<and> imageOf (objects v r) \<noteq> None \<longrightarrow>
               \<not> dormant (snd (drawImage h v (Some r) iv)))" if "dormant v" for v
    using dormant_kept[OF that] dormant_woken[OF that] by blast
  have ab: "(requests (since w' (snd (step h w))) \<noteq> []) = ahead w'"
    using a b by (cases "ahead w'") simp_all
  have s1: "ahead w' \<Longrightarrow>
      snd (step h w) = (snd (requestAnimationFrame w'))\<lparr>rafId := Some (Suc (lastHandle w'))\<rparr>"
    and s2: "\<not> ahead w' \<Longrightarrow> snd (step h w) = stopRaf w'"
    by (simp_all add: s)
  from ab a c d e s1 s2 k show ?thesis by blast
qed

lemma rendered_eq:
  "rendered = start\<lparr>rafId := Some 2, rafStopTime := Some 100,
      elementsDrawMap := [(Some 1, \<lparr>needsRedraw = False, callbacks = []\<rparr>)], registered := True,
      frames := [2], lastHandle := 2, listeners := [''visibilitychange''],
      trace := [Raf 1, PreRender 1 1 0, Render 1 False, Raf 2]\<rparr>"
  by (simp add: rendered_def requested_eq
     step_def drain.simps visit_def start_def init_def surface_def page_def set_size_def
     Let_def elapse_def rafStopMaxTime_def requestAnimationFrame_def stopRaf_def fun_upd_idem_iff)

theorem tick_end_witness:
  "drain page 0 (requested\<lparr>frames := []\<rparr>) = (None, snd (drain page 0 (requested\<lparr>frames := []\<rparr>))) \<and>
   ahead (snd (drain page 0 (requested\<lparr>frames := []\<rparr>))) \<and>
   requests (since (snd (drain page 0 (requested\<lparr>frames := []\<rparr>))) (snd (step page (requested\<lparr>frames := []\<rparr>)))) = [2] \<and>
   rafId (snd (step page (requested\<lparr>frames := []\<rparr>))) = Some 2 \<and>
   frames (snd (step page (requested\<lparr>frames := []\<rparr>))) = [2] \<and>
   drain page 0 late = (None, late) \<and> idle late \<and> frames late = [] \<and> \<not> ahead late \<and>
   dormant (snd (step page late)) \<and> requests (since late (snd (step page late))) = [] \<and>
   rafId (snd (step page late)) = None \<and>
   fire page (snd (step page late)) = None \<and>
   dormant (addDrawCallback (snd (step page late)) (Some 1) observer) \<and>
   dormant (removeDrawCallback (snd (step page late)) (Some 1) observer) \<and>
   dormant (elapse 1000 (snd (step page late))) \<and>
   dormant (onVisibilityChange True (snd (step page late))) \<and>
   \<not> dormant (onVisibilityChange False (snd (step page late))) \<and>
   \<not> dormant (snd (drawImage page (snd (step page late)) (Some 1) False))"
proof -
  define w1 where "w1 = snd (drain page 0 (requested\<lparr>frames := []\<rparr>))"
  have w1: "w1 = start\<lparr>rafId := Some 1, rafStopTime := Some 100,
      elementsDrawMap := [(Some 1, \<lparr>needsRedraw = False, callbacks = []\<rparr>)], registered := True,
      frames := [], lastHandle := 1, listeners := [''visibilitychange''],
      trace := [Raf 1, PreRender 1 1 0, Render 1 False]\<rparr>"
    unfolding w1_def
    by (simp add: requested_eq drain.simps visit_def start_def init_def surface_def page_def set_size_def
       Let_def elapse_def fun_upd_idem_iff)
  have "fst (drain page 0 (requested\<lparr>frames := []\<rparr>)) = None"
    by (simp add: requested_eq drain.simps visit_def start_def init_def surface_def page_def set_size_def
       Let_def elapse_def)
  then have d1: "drain page 0 (requested\<lparr>frames := []\<rparr>) = (None, w1)"
    by (simp add: w1_def prod_eq_iff)
  have a1: "ahead w1" "lastHandle w1 = 1" "frames w1 = []"
    by (simp_all add: w1 ahead_def start_def init_def)
  have l: "idle late" "frames late = []" "\<not> ahead late"
    by (simp_all add: late_def rendered_eq idle_def ahead_def elapse_def start_def init_def)
  have d2: "drain page 0 late = (None, late)" using l(1) by (rule drain_idle)
  note t1 = tick_end[OF d1, of "Some 1" observer 1000]
  note t2 = tick_end[OF d2, of "Some 1" observer 1000]
  from t1 a1(1)
  have r0: "requests (since w1 (snd (step page (requested\<lparr>frames := []\<rparr>)))) = [Suc (lastHandle w1)] \<and>
    rafId (snd (step page (requested\<lparr>frames := []\<rparr>))) = Some (Suc (lastHandle w1)) \<and>
    frames (snd (step page (requested\<lparr>frames := []\<rparr>))) = frames w1 @ [Suc (lastHandle w1)]"
    by blast
  then have r: "requests (since w1 (snd (step page (requested\<lparr>frames := []\<rparr>)))) = [2]"
    "rafId (snd (step page (requested\<lparr>frames := []\<rparr>))) = Some 2"
    "frames (snd (step page (requested\<lparr>frames := []\<rparr>))) = [2]"
    by (simp_all add: a1(2,3))
  from t2 l
  have dm: "rafId (snd (step page late)) = None" "dormant (snd (step page late))"
    "requests (since late (snd (step page late))) = []"
    by blast+
  from t2 dm(2)
  have k: "fire page (snd (step page late)) = None \<and>
   dormant (addDrawCallback (snd (step page late)) (Some 1) observer) \<and>
   dormant (removeDrawCallback (snd (step page late)) (Some 1) observer) \<and>
   dormant (elapse 1000 (snd (step page late))) \<and>
   dormant (onVisibilityChange True (snd (step page late))) \<and>
   \<not> dormant (onVisibilityChange False (snd (step page late))) \<and>
   (\<forall>r iv. canvas (objects (snd (step page late)) r) \<noteq> None \<and> imageOf (objects (snd (step page late)) r) \<noteq> None \<longrightarrow>
               \<not> dormant (snd (drawImage page (snd (step page late)) (Some r) iv)))"
    by blast
  from t2 l have "snd (step page late) = stopRaf late" by blast
  then have ob: "canvas (objects (snd (step page late)) 1) \<noteq> None \<and> imageOf (objects (snd (step page late)) 1) \<noteq> None"
    by (simp add: stopRaf_def cancelAnimationFrame_def Let_def late_def elapse_def rendered_eq start_def init_def surface_def)
  with k have wk: "\<not> dormant (snd (drawImage page (snd (step page late)) (Some 1) False))" by blast
  from d1 a1(1) r d2 l dm k wk show ?thesis unfolding w1_def by blast
qed

section \<open>A renderer that throws\<close>

text \<open>
  C4 does not hold of the code: \<open>step\<close> has no \<open>try\<close> around \<open>drawImageSync\<close> and no
  cleanup. When the renderer throws, the exception leaves \<open>step\<close> before the statements
  that re-arm or stop: \<open>rafId\<close> keeps the handle of the frame that has just run although
  no frame is pending, and the entry stays dirty. From then on \<open>drawImage\<close> finds \<open>rafId\<close>
  set and requests nothing, so no tick runs again, even with a renderer that works.
\<close>

theorem render_throw_leaves_stale_rafId:
  "fire faulty requested = Some (Some RenderError, stuck) \<and>
   rafId stuck = Some 1 \<and> frames stuck = [] \<and>
   needsRedraw (snd (elementsDrawMap stuck ! 0)) \<and>
   requests (since requested stuck) = [] \<and>
   fst (drawImage page stuck (Some 1) True) = None \<and>
   rafId (snd (drawImage page stuck (Some 1) True)) = Some 1 \<and>
   frames (snd (drawImage page stuck (Some 1) True)) = [] \<and>
   fire page (snd (drawImage page stuck (Some 1) True)) = None"
proof -
  have e: "fst (step faulty (requested\<lparr>frames := []\<rparr>)) = Some RenderError"
    by (simp add: requested_eq step_def drain.simps visit_def start_def init_def surface_def page_def faulty_def
       Let_def)
  have st: "stuck = start\<lparr>rafId := Some 1, rafStopTime := Some 100,
      elementsDrawMap := [(Some 1, \<lparr>needsRedraw = True, callbacks = []\<rparr>)], registered := True,
      frames := [], lastHandle := 1, listeners := [''visibilitychange''],
      trace := [Raf 1, PreRender 1 1 0, Render 1 False]\<rparr>"
    by (simp add: stuck_def requested_eq step_def drain.simps visit_def start_def init_def surface_def page_def faulty_def
       Let_def)
  have "frames requested = [1]" by (simp add: requested_eq)
  with e have f: "fire faulty requested = Some (Some RenderError, stuck)"
    by (simp add: fire_def stuck_def prod_eq_iff)
  have a: "rafId stuck = Some 1 \<and> frames stuck = [] \<and>
   needsRedraw (snd (elementsDrawMap stuck ! 0)) \<and> requests (since requested stuck) = []"
    by (simp add: st since_def requested_eq)
  have d: "fst (drawImage page stuck (Some 1) True) = None \<and>
   rafId (snd (drawImage page stuck (Some 1) True)) = Some 1 \<and>
   frames (snd (drawImage page stuck (Some 1) True)) = []"
    by (simp add: st drawImage_def registerVisibilityChange_def schedule_def Let_def
        start_def init_def surface_def)
  then have "fire page (snd (drawImage page stuck (Some 1) True)) = None"
    by (simp add: fire_def)
  with f a d show ?thesis by blast
qed

section \<open>One render for each requested surface\<close>

lemma renders_of_append [simp]: "renders_of r (a @ b) = renders_of r a @ renders_of r b"
  by (simp add: renders_of_def)

lemma renders_of_Raf [simp]: "renders_of r (map Raf hs) = []"
  by (simp add: renders_of_def)

lemma renders_of_simps [simp]:
  "renders_of r [] = []"
  "renders_of r (Render r' b # es) = (if r' = r then b # renders_of r es else renders_of r es)"
  "renders_of r (PreRender el r' t # es) = renders_of r es"
  "renders_of r (Invoke f r' # es) = renders_of r es"
  "renders_of r (Raf x # es) = renders_of r es"
  "renders_of r (Cancel x # es) = renders_of r es"
  by (simp_all add: renders_of_def)

lemma drawImage_passes:
  "passes (objects w r) \<Longrightarrow>
   drawImage h w (Some r) iv = (None, schedule r iv (registerVisibilityChange h w))"
  by (auto simp: drawImage_def passes_def Let_def split: option.splits)

lemma objects_schedule:
  "objects (schedule r iv w) = (if iv then (objects w)(r := (objects w r)\<lparr>invalid := True\<rparr>) else objects w)"
  by (simp add: schedule_def Let_def requestAnimationFrame_def)

lemma slot_schedule: "slot j el r w \<Longrightarrow> slot j el r (schedule r' iv w)"
  using length_ensure[of "elementsDrawMap w" "element (objects w r')"]
  by (auto simp: slot_def elementsDrawMap_schedule fst_nth_modify nth_ensure distinct_keys_ensure)

lemma slot_registerVisibilityChange [simp]: "slot j el r (registerVisibilityChange h w) = slot j el r w"
  by (simp add: slot_def)

lemma slot_drawImage: "slot j el r w \<Longrightarrow> slot j el r (snd (drawImage h w ee iv))"
  by (auto simp: drawImage_def Let_def slot_schedule split: option.splits)

lemma dirty_at_schedule:
  assumes "dirty_at j w"
  shows "dirty_at j (schedule r' iv w)"
proof -
  let ?k = "element (objects w r')"
  let ?m = "ensure ?k (elementsDrawMap w)"
  from assms have a: "j < length (elementsDrawMap w)" "needsRedraw (snd (elementsDrawMap w ! j))"
    by (simp_all add: dirty_at_def)
  have j: "j < length ?m" using a(1) length_ensure[of "elementsDrawMap w" ?k] by simp
  have n: "?m ! j = elementsDrawMap w ! j" using a(1) by (rule nth_ensure)
  from nth_modify_cases[OF j, of ?k "\<lambda>e. e\<lparr>needsRedraw := True\<rparr>"] n a(2)
  have "needsRedraw (snd (elementsDrawMap (schedule r' iv w) ! j))"
    by (auto simp: elementsDrawMap_schedule)
  with j show ?thesis by (simp add: dirty_at_def elementsDrawMap_schedule)
qed

lemma dirty_at_registerVisibilityChange [simp]: "dirty_at j (registerVisibilityChange h w) = dirty_at j w"
  by (simp add: dirty_at_def)

lemma dirty_at_drawImage: "dirty_at j w \<Longrightarrow> dirty_at j (snd (drawImage h w ee iv))"
  by (auto simp: drawImage_def Let_def dirty_at_schedule split: option.splits)

lemma renders_of_drawImage:
  "renders_of r (trace (snd (drawImage h w ee iv))) = renders_of r (trace w)"
  using trace_drawImage[of h w ee iv] by auto

lemma objects_drawImage_other:
  "(ee, iv) \<noteq> (Some r, True) \<Longrightarrow> objects (snd (drawImage h w ee iv)) r = objects w r"
  by (auto simp: drawImage_def Let_def objects_schedule split: option.splits)

lemma slot_unique:
  assumes "slot j el r w" "i < length (elementsDrawMap w)" "elementsDrawMap w ! i = (Some el', e)"
    "enabled w el' = Some r"
  shows "i = j"
proof -
  let ?ks = "map fst (elementsDrawMap w)"
  from assms(1,4) have el: "el' = el" unfolding slot_def by blast
  have d: "distinct ?ks" and lj: "j < length ?ks" and kj: "?ks ! j = Some el"
    using assms(1) by (simp_all add: slot_def)
  have li: "i < length ?ks" and ki: "?ks ! i = Some el"
    using assms(2,3) el by simp_all
  from nth_eq_iff_index_eq[OF d li lj] ki kj show ?thesis by metis
qed

lemma keptI:
  "(slot j el r w \<Longrightarrow> slot j el r w' \<and> renders_of r (trace w') = renders_of r (trace w)) \<Longrightarrow> kept j el r w w'"
  by (simp add: kept_def)

lemma kept_refl: "kept j el r w w"
  by (simp add: kept_def)

lemma kept_trans: "kept j el r a b \<Longrightarrow> kept j el r b c \<Longrightarrow> kept j el r a c"
  unfolding kept_def by metis

lemma keys_clear:
  "i < length m \<Longrightarrow> m ! i = (k, e) \<Longrightarrow> map fst (m[i := (k, e')]) = map fst m"
  by (simp add: map_update list_update_same_conv)

lemma slot_clear:
  assumes "slot j el r w" "i < length (elementsDrawMap w)" "elementsDrawMap w ! i = (k, e)"
  shows "slot j el r (w\<lparr>elementsDrawMap := (elementsDrawMap w)[i := (k, e')]\<rparr>)"
proof -
  have "fst ((elementsDrawMap w)[i := (k, e')] ! j) = fst (elementsDrawMap w ! j)"
    using assms by (cases "i = j") (simp_all add: slot_def)
  with assms keys_clear[OF assms(2,3), of e'] show ?thesis by (simp add: slot_def)
qed

lemma kept_drawImage: "kept j el r w (snd (drawImage h w ee iv))"
  by (rule keptI) (simp add: slot_drawImage renders_of_drawImage)

lemma kept_elapse: "kept j el r w (elapse d w)"
  by (rule keptI) (simp add: elapse_def slot_def)

lemma kept_addDrawCallback: "kept j el r w (addDrawCallback w k g)"
  by (rule keptI) (simp add: slot_addDrawCallback)

lemma kept_removeDrawCallback: "kept j el r w (removeDrawCallback w k g)"
  by (rule keptI) (simp add: slot_removeDrawCallback)

lemma kept_event:
  "renders_of r [ev] = [] \<Longrightarrow> kept j el r w (w\<lparr>trace := trace w @ [ev]\<rparr>)"
  by (rule keptI) (simp add: slot_def)

lemma kept_paint: "kept j el r w (w\<lparr>objects := os\<rparr>)"
  by (rule keptI) (simp add: slot_def)

lemma kept_extend: "kept j el r w (w\<lparr>rafStopTime := t\<rparr>)"
  by (rule keptI) (simp add: slot_def)

lemma kept_clear:
  "i < length (elementsDrawMap w) \<Longrightarrow> elementsDrawMap w ! i = (k, e) \<Longrightarrow>
   kept j el r w (w\<lparr>elementsDrawMap := (elementsDrawMap w)[i := (k, e')]\<rparr>)"
  by (rule keptI) (simp add: slot_clear)

lemma kept_render:
  assumes "i \<noteq> j" "elementsDrawMap w ! i = (Some el', e)" "enabled w el' = Some r'"
    "i < length (elementsDrawMap w)"
  shows "kept j el r w (w\<lparr>trace := trace w @ [Render r' b]\<rparr>)"
proof (rule keptI)
  assume s: "slot j el r w"
  have "r' \<noteq> r"
  proof
    assume "r' = r"
    with assms(3) have "enabled w el' = Some r" by simp
    from slot_unique[OF s assms(4) assms(2) this] assms(1) show False by simp
  qed
  with s show "slot j el r (w\<lparr>trace := trace w @ [Render r' b]\<rparr>) \<and>
      renders_of r (trace (w\<lparr>trace := trace w @ [Render r' b]\<rparr>)) = renders_of r (trace w)"
    by (simp add: slot_def)
qed

lemma visit_elsewhere:
  assumes "i < length (elementsDrawMap w)" "i \<noteq> j"
  shows "kept j el r w (snd (visit h i w))"
proof (rule visit_preorder[where R="kept j el r"], goal_cases)
  case (1 w)
  show ?case by (rule kept_refl)
next
  case (2 a b c)
  then show ?case by (rule kept_trans)
next
  case (3 w ee iv)
  show ?case by (rule kept_drawImage)
next
  case (4 w k g)
  show ?case by (rule kept_addDrawCallback)
next
  case (5 w k g)
  show ?case by (rule kept_removeDrawCallback)
next
  case (6 w d)
  show ?case by (rule kept_elapse)
next
  case (7 w f r')
  show ?case by (rule kept_event) simp
next
  case (8 w el' r' t)
  show ?case by (rule kept_event) simp
next
  case (9 w el' e r')
  from assms(2) 9(2) 9(4) 9(1) show ?case by (rule kept_render)
next
  case (10 w el' e r' ob d)
  show ?case by (rule kept_paint)
next
  case (11 w el' e r')
  from 11(1,2) show ?case by (rule kept_clear)
next
  case (12 w)
  show ?case by (rule kept_extend)
next
  case 13
  show ?case by (rule assms(1))
qed

lemma drain_after:
  assumes "j < i"
  shows "kept j el r w (snd (drain h i w))"
proof (rule drain_preorder[where R="kept j el r" and Q="\<lambda>i. j < i"], goal_cases)
  case (1 w)
  show ?case by (rule kept_refl)
next
  case (2 a b c)
  then show ?case by (rule kept_trans)
next
  case (3 i w)
  then show ?case by (intro visit_elsewhere) simp_all
next
  case (4 i)
  then show ?case by simp
next
  case 5
  show ?case by (rule assms)
qed

lemma heldI:
  assumes "kept j el r w w'"
    and "dirty_at j w \<Longrightarrow> slot j el r w \<Longrightarrow> dirty_at j w' \<and> objects w' r = objects w r"
  shows "held j el r w w'"
  using assms by (auto simp: held_def kept_def)

lemma held_refl: "held j el r w w"
  by (simp add: held_def)

lemma held_trans: "held j el r a b \<Longrightarrow> held j el r b c \<Longrightarrow> held j el r a c"
  unfolding held_def by metis

lemma held_drawImage:
  "DrawImage ee iv \<noteq> DrawImage (Some r) True \<Longrightarrow> held j el r w (snd (drawImage h w ee iv))"
  by (rule heldI[OF kept_drawImage]) (auto simp: dirty_at_drawImage objects_drawImage_other)

lemma held_elapse: "held j el r w (elapse d w)"
  by (rule heldI[OF kept_elapse]) (simp add: elapse_def dirty_at_def)

lemma held_addDrawCallback: "held j el r w (addDrawCallback w k g)"
  by (rule heldI[OF kept_addDrawCallback]) simp

lemma held_removeDrawCallback: "held j el r w (removeDrawCallback w k g)"
  by (rule heldI[OF kept_removeDrawCallback]) simp

lemma held_event:
  "renders_of r [ev] = [] \<Longrightarrow> held j el r w (w\<lparr>trace := trace w @ [ev]\<rparr>)"
  by (rule heldI[OF kept_event]) (simp_all add: dirty_at_def)

lemma held_extend: "held j el r w (w\<lparr>rafStopTime := t\<rparr>)"
  by (rule heldI[OF kept_extend]) (simp add: dirty_at_def)

lemma held_clear:
  "i \<noteq> j \<Longrightarrow> i < length (elementsDrawMap w) \<Longrightarrow> elementsDrawMap w ! i = (k, e) \<Longrightarrow>
   held j el r w (w\<lparr>elementsDrawMap := (elementsDrawMap w)[i := (k, e')]\<rparr>)"
  by (rule heldI[OF kept_clear]) (simp_all add: dirty_at_def)

lemma held_render:
  assumes "i \<noteq> j" "elementsDrawMap w ! i = (Some el', e)" "enabled w el' = Some r'"
    "i < length (elementsDrawMap w)"
  shows "held j el r w (w\<lparr>trace := trace w @ [Render r' b]\<rparr>)"
  by (rule heldI[OF kept_render[OF assms]]) (simp add: dirty_at_def)

lemma held_paint:
  assumes "i \<noteq> j" "elementsDrawMap w ! i = (Some el', e)" "enabled w el' = Some r'"
    "i < length (elementsDrawMap w)"
  shows "held j el r w (w\<lparr>objects := (objects w)(r' := ob)\<rparr>)"
proof (rule heldI[OF kept_paint])
  assume s: "slot j el r w" and d: "dirty_at j w"
  have "r' \<noteq> r"
  proof
    assume "r' = r"
    with assms(3) have "enabled w el' = Some r" by simp
    from slot_unique[OF s assms(4) assms(2) this] assms(1) show False by simp
  qed
  with d show "dirty_at j (w\<lparr>objects := (objects w)(r' := ob)\<rparr>) \<and>
     objects (w\<lparr>objects := (objects w)(r' := ob)\<rparr>) r = objects w r"
    by (simp add: dirty_at_def)
qed

lemma visit_before:
  assumes "i < length (elementsDrawMap w)" "i \<noteq> j" "tame r w"
  shows "held j el r w (snd (visit h i w)) \<and> tame r (snd (visit h i w))"
  unfolding tame_def
proof (rule visit_guarded[where R="held j el r" and A="\<lambda>c. c \<noteq> DrawImage (Some r) True"], goal_cases)
  case (1 w)
  show ?case by (rule held_refl)
next
  case (2 a b c)
  then show ?case by (rule held_trans)
next
  case (3 w ee iv)
  then show ?case by (rule held_drawImage)
next
  case (4 w k g)
  show ?case by (rule held_addDrawCallback)
next
  case (5 w k g)
  show ?case by (rule held_removeDrawCallback)
next
  case (6 w d)
  show ?case by (rule held_elapse)
next
  case (7 w f r')
  show ?case by (rule held_event) simp
next
  case (8 w el' r' t)
  show ?case by (rule held_event) simp
next
  case (9 w el' e r')
  from assms(2) 9(2) 9(4) 9(1) show ?case by (rule held_render)
next
  case (10 w el' e r' ob d)
  from assms(2) 10(2) 10(4) 10(1) show ?case by (rule held_paint)
next
  case (11 w el' e r')
  from assms(2) 11(1,2) show ?case by (rule held_clear)
next
  case (12 w)
  show ?case by (rule held_extend)
next
  case 13
  show ?case by (rule assms(1))
next
  case 14
  show ?case using assms(3) by (simp add: tame_def)
qed

lemma scripted_visit:
  assumes "i < length (elementsDrawMap w)" "scripted A w"
  shows "scripted A (snd (visit h i w))"
proof -
  have "True \<and> scripted A (snd (visit h i w))"
    by (rule visit_guarded[where R="\<lambda>w w'. True" and A=A, OF _ _ _ _ _ _ _ _ _ _ _ _ assms]) simp_all
  then show ?thesis ..
qed

lemma tame_visit:
  assumes "i < length (elementsDrawMap w)" "tame r w"
  shows "tame r (snd (visit h i w))"
  using scripted_visit[OF assms(1), of "\<lambda>c. c \<noteq> DrawImage (Some r) True" h] assms(2)
  by (simp add: tame_def)

lemma sound_visit:
  assumes "sound h" "i < length (elementsDrawMap w)"
  shows "fst (visit h i w) = None"
  using assms(2)
proof (cases rule: visit_cases[of i w h])
  case (throw el e r)
  with assms(1) show ?thesis unfolding sound_def by blast
qed simp_all

lemma stays_kept: "kept j el r w w' \<Longrightarrow> stays j el r w w'"
  by (simp add: stays_def kept_def)

lemma stays_trans: "stays j el r a b \<Longrightarrow> stays j el r b c \<Longrightarrow> stays j el r a c"
  by (simp add: stays_def)

lemma visit_stays:
  assumes "i < length (elementsDrawMap w)"
  shows "stays j el r w (snd (visit h i w))"
proof (rule visit_preorder[where R="stays j el r"], goal_cases)
  case (1 w)
  show ?case by (rule stays_kept[OF kept_refl])
next
  case (2 a b c)
  then show ?case by (rule stays_trans)
next
  case (3 w ee iv)
  show ?case by (rule stays_kept[OF kept_drawImage])
next
  case (4 w k g)
  show ?case by (rule stays_kept[OF kept_addDrawCallback])
next
  case (5 w k g)
  show ?case by (rule stays_kept[OF kept_removeDrawCallback])
next
  case (6 w d)
  show ?case by (rule stays_kept[OF kept_elapse])
next
  case (7 w f r')
  show ?case by (rule stays_kept[OF kept_event]) simp
next
  case (8 w el' r' t)
  show ?case by (rule stays_kept[OF kept_event]) simp
next
  case (9 w el' e r')
  show ?case by (simp add: stays_def slot_def)
next
  case (10 w el' e r' ob d)
  show ?case by (rule stays_kept[OF kept_paint])
next
  case (11 w el' e r')
  from 11(1,2) show ?case by (rule stays_kept[OF kept_clear])
next
  case (12 w)
  show ?case by (rule stays_kept[OF kept_extend])
next
  case 13
  show ?case by (rule assms(1))
qed

lemma kept_forEach_callbacks: "kept j el r w (forEach_callbacks h i r' p w)"
proof -
  have "scripted (\<lambda>c. True) w \<longrightarrow>
      kept j el r w (forEach_callbacks h i r' p w) \<and> scripted (\<lambda>c. True) (forEach_callbacks h i r' p w)"
  proof (rule forEach_callbacks_guarded[where A="\<lambda>c. True" and R="kept j el r"], goal_cases)
    case (1 w)
    show ?case by (rule kept_refl)
  next
    case (2 a b c)
    then show ?case by (rule kept_trans)
  next
    case (3 w ee iv)
    show ?case by (rule kept_drawImage)
  next
    case (4 w k g)
    show ?case by (rule kept_addDrawCallback)
  next
    case (5 w k g)
    show ?case by (rule kept_removeDrawCallback)
  next
    case (6 w d)
    show ?case by (rule kept_elapse)
  next
    case (7 w f)
    show ?case by (rule kept_event) simp
  qed
  then show ?thesis by (simp add: scripted_True)
qed

lemma visit_at:
  assumes "slot j el r w" "dirty_at j w" "sound h"
  shows "slot j el r (snd (visit h j w)) \<and>
         renders_of r (trace (snd (visit h j w))) = renders_of r (trace w) @ [invalid (objects w r)]"
proof -
  have j: "j < length (elementsDrawMap w)" using assms(1) by (simp add: slot_def)
  obtain e where e: "elementsDrawMap w ! j = (Some el, e)"
    using assms(1) by (cases "elementsDrawMap w ! j") (simp add: slot_def)
  have n: "needsRedraw e" using assms(2) e by (simp add: dirty_at_def)
  have en: "enabled w el = Some r" using assms(1) by (simp add: slot_def)
  obtain ob d where od: "drawImageSync h (objects w r) (invalid (objects w r)) = Some (ob, d)"
    using assms(3) unfolding sound_def by (metis option.exhaust surj_pair)
  let ?w = "after_render j el e r ob d w"
  have s4: "slot j el r ?w"
    using assms(1) keys_clear[OF j e, of "e\<lparr>needsRedraw := False\<rparr>"]
    by (simp add: slot_def after_render_def elapse_def)
  have t4: "renders_of r (trace ?w) = renders_of r (trace w) @ [invalid (objects w r)]"
    by simp
  note v = visit_rendered[OF e n en od]
  show ?thesis
  proof (cases "set_size (callbacks e) = 0")
    case True
    with s4 t4 show ?thesis by (simp add: v)
  next
    case False
    let ?w5 = "forEach_callbacks h j r 0 ?w"
    from kept_forEach_callbacks[of j el r ?w h j r 0] s4
    have "slot j el r ?w5" "renders_of r (trace ?w5) = renders_of r (trace ?w)"
      by (simp_all add: kept_def)
    with t4 False show ?thesis by (simp add: v Let_def slot_def)
  qed
qed

lemma drain_before:
  assumes "sound h"
  shows "i \<le> j \<Longrightarrow> slot j el r w \<Longrightarrow> dirty_at j w \<Longrightarrow> tame r w \<Longrightarrow>
     renders_of r (trace (snd (drain h i w))) = renders_of r (trace w) @ [invalid (objects w r)]"
proof (induction "j - i" arbitrary: i w)
  case 0
  then have ij: "i = j" by simp
  have j: "j < length (elementsDrawMap w)" using 0(3) by (simp add: slot_def)
  let ?w = "snd (visit h j w)"
  from visit_at[OF 0(3,4) assms] have v: "slot j el r ?w"
    "renders_of r (trace ?w) = renders_of r (trace w) @ [invalid (objects w r)]" by simp_all
  have "drain h j w = drain h (Suc j) ?w"
    by (rule drain_step[OF j sound_visit[OF assms j]])
  moreover from drain_after[of j "Suc j" el r ?w h] v(1)
  have "renders_of r (trace (snd (drain h (Suc j) ?w))) = renders_of r (trace ?w)"
    by (simp add: kept_def)
  ultimately show ?case using v(2) ij by simp
next
  case (Suc n)
  then have ij: "i < j" "i \<noteq> j" by simp_all
  have j: "j < length (elementsDrawMap w)" using Suc(4) by (simp add: slot_def)
  with ij have i: "i < length (elementsDrawMap w)" by simp
  let ?w = "snd (visit h i w)"
  from visit_before[OF i ij(2) Suc(6), of el h] Suc(4,5)
  have v: "slot j el r ?w" "dirty_at j ?w" "renders_of r (trace ?w) = renders_of r (trace w)"
    "objects ?w r = objects w r"
    by (simp_all add: held_def)
  have t: "tame r ?w" by (rule tame_visit[OF i Suc(6)])
  have "drain h i w = drain h (Suc i) ?w"
    by (rule drain_step[OF i sound_visit[OF assms i]])
  moreover from Suc(1)[of "Suc i" ?w] Suc(2) ij v t
  have "renders_of r (trace (snd (drain h (Suc i) ?w))) = renders_of r (trace ?w) @ [invalid (objects ?w r)]"
    by simp
  ultimately show ?case using v(3,4) by simp
qed

lemma grows_refl: "grows w w"
  by (simp add: grows_def)

lemma grows_trans: "grows a b \<Longrightarrow> grows b c \<Longrightarrow> grows a c"
  by (auto simp: grows_def)

lemma grows_same: "trace w' = trace w \<Longrightarrow> grows w w'"
  by (simp add: grows_def)

lemma grows_event: "grows w (w\<lparr>trace := trace w @ es\<rparr>)"
  by (simp add: grows_def)

lemma grows_drawImage: "grows w (snd (drawImage h w ee iv))"
  using trace_drawImage[of h w ee iv] by (auto simp: grows_def)

lemma grows_visit:
  assumes "i < length (elementsDrawMap w)"
  shows "grows w (snd (visit h i w))"
proof (rule visit_preorder[where R=grows], goal_cases)
  case (2 a b c)
  then show ?case by (rule grows_trans)
next
  case (3 w ee iv)
  show ?case by (rule grows_drawImage)
next
  case 13
  show ?case by (rule assms)
qed (simp_all add: grows_def elapse_def)

lemma grows_drain: "grows w (snd (drain h i w))"
proof (rule drain_preorder[where R=grows and Q="\<lambda>i. True"], goal_cases)
  case (2 a b c)
  then show ?case by (rule grows_trans)
next
  case (3 i w)
  then show ?case by (intro grows_visit)
qed (simp_all add: grows_refl)

lemma step_tail:
  "\<exists>es. trace (snd (step h w)) = trace (snd (drain h 0 w)) @ es \<and> renders es = []"
proof -
  obtain err w' where d: "drain h 0 w = (err, w')" by (cases "drain h 0 w")
  have a: "trace ((snd (requestAnimationFrame w'))\<lparr>rafId := x\<rparr>) = trace w' @ [Raf (Suc (lastHandle w'))]" for x
    by (simp add: requestAnimationFrame_def Let_def)
  have b: "trace (stopRaf w') = trace w' @ (if truthy (rafId w') then [Cancel (the (rafId w'))] else [])"
    by (simp add: stopRaf_def cancelAnimationFrame_def Let_def)
  show ?thesis
  proof (cases err)
    case (Some e)
    with d show ?thesis by (simp add: step_def)
  next
    case None
    show ?thesis
    proof (cases "truthy (rafStopTime w') \<and> perfNow w' < the (rafStopTime w')")
      case True
      with None d a show ?thesis by (simp add: step_def case_prod_unfold Let_def)
    next
      case False
      with None d b show ?thesis by (auto simp: step_def)
    qed
  qed
qed

lemma grows_step: "grows w (snd (step h w))"
proof -
  from step_tail[of h w] obtain es where "trace (snd (step h w)) = trace (snd (drain h 0 w)) @ es"
    by blast
  then have "grows (snd (drain h 0 w)) (snd (step h w))" by (auto simp: grows_def)
  from grows_trans[OF grows_drain this] show ?thesis .
qed

lemma renders_of_step:
  "renders_of r (trace (snd (step h w))) = renders_of r (trace (snd (drain h 0 w)))"
proof -
  from step_tail[of h w] obtain es where "trace (snd (step h w)) = trace (snd (drain h 0 w)) @ es"
    "renders es = []" by blast
  then show ?thesis by (simp add: renders_of_def)
qed

lemma renders_of_since:
  assumes "grows w w'" "renders_of r (trace w') = renders_of r (trace w) @ bs"
  shows "renders_of r (since w w') = bs"
proof -
  from assms(1) obtain es where es: "trace w' = trace w @ es" by (auto simp: grows_def)
  then have "since w w' = es" by (rule since_append)
  with es assms(2) show ?thesis by simp
qed

lemma ensure_index: "\<exists>j<length (ensure k m). fst (ensure k m ! j) = k"
proof -
  have "k \<in> fst ` set (ensure k m)" using has_ensure[of k m] by (simp add: has_def)
  then obtain p where "p \<in> set (ensure k m)" "fst p = k" by auto
  then show ?thesis by (metis in_set_conv_nth)
qed

lemma schedule_slot:
  assumes "distinct (map fst (elementsDrawMap w))" "element (objects w r) = Some el"
    "enabled w el = Some r" "\<forall>el'. el' \<noteq> el \<longrightarrow> enabled w el' \<noteq> Some r"
  shows "\<exists>j. slot j el r (schedule r iv w) \<and> dirty_at j (schedule r iv w)"
proof -
  let ?m = "ensure (Some el) (elementsDrawMap w)"
  from ensure_index[of "Some el" "elementsDrawMap w"] obtain j where
    j: "j < length ?m" "fst (?m ! j) = Some el" by blast
  have d: "distinct (map fst ?m)" using assms(1) by (rule distinct_keys_ensure)
  have m: "elementsDrawMap (schedule r iv w) = modify (Some el) (\<lambda>e. e\<lparr>needsRedraw := True\<rparr>) ?m"
    by (simp add: elementsDrawMap_schedule assms(2))
  have "slot j el r (schedule r iv w)"
    using j d assms(3,4) by (simp add: slot_def m fst_nth_modify)
  moreover have "dirty_at j (schedule r iv w)"
    using j by (simp add: dirty_at_def m nth_modify_distinct[OF d j])
  ultimately show ?thesis by blast
qed

lemma accepted_call:
  fixes h iv
  assumes "distinct (map fst (elementsDrawMap w))" "passes (objects w r)"
    "element (objects w r) = Some el" "enabled w el = Some r"
    "\<forall>el'. el' \<noteq> el \<longrightarrow> enabled w el' \<noteq> Some r" "tame r w"
  defines "w' \<equiv> snd (drawImage h w (Some r) iv)"
  shows "distinct (map fst (elementsDrawMap w'))" "passes (objects w' r)"
    "element (objects w' r) = Some el" "enabled w' el = Some r"
    "\<forall>el'. el' \<noteq> el \<longrightarrow> enabled w' el' \<noteq> Some r" "tame r w'"
    "\<exists>j. slot j el r w' \<and> dirty_at j w'"
    "invalid (objects w' r) = (invalid (objects w r) \<or> iv)"
proof -
  let ?v = "registerVisibilityChange h w"
  have w': "w' = schedule r iv ?v"
    by (simp add: w'_def drawImage_passes[OF assms(2)])
  have ob: "objects w' r = (if iv then (objects w r)\<lparr>invalid := True\<rparr> else objects w r)"
    by (simp add: w' objects_schedule)
  show "passes (objects w' r)" using assms(2) by (simp add: ob passes_def)
  show "element (objects w' r) = Some el" using assms(3) by (simp add: ob)
  show "invalid (objects w' r) = (invalid (objects w r) \<or> iv)" by (simp add: ob)
  show "enabled w' el = Some r" using assms(4) by (simp add: w')
  show "\<forall>el'. el' \<noteq> el \<longrightarrow> enabled w' el' \<noteq> Some r" using assms(5) by (simp add: w')
  have v1: "distinct (map fst (elementsDrawMap ?v))" using assms(1) by simp
  have v2: "element (objects ?v r) = Some el" using assms(3) by simp
  have v3: "enabled ?v el = Some r" using assms(4) by simp
  have v4: "\<forall>el'. el' \<noteq> el \<longrightarrow> enabled ?v el' \<noteq> Some r" using assms(5) by simp
  from schedule_slot[OF v1 v2 v3 v4, of iv]
  show s: "\<exists>j. slot j el r w' \<and> dirty_at j w'" unfolding w' .
  then show "distinct (map fst (elementsDrawMap w'))" by (auto simp: slot_def)
  from assms(6) show "tame r w'"
    unfolding w'_def tame_def by (rule scripted_drawImage)
qed

lemma window_slot:
  assumes "ivs \<noteq> []" "distinct (map fst (elementsDrawMap w))" "passes (objects w r)"
    "element (objects w r) = Some el" "enabled w el = Some r"
    "\<forall>el'. el' \<noteq> el \<longrightarrow> enabled w el' \<noteq> Some r" "tame r w"
  shows "\<exists>j. slot j el r (window h w r ivs) \<and> dirty_at j (window h w r ivs) \<and>
             tame r (window h w r ivs) \<and>
             invalid (objects (window h w r ivs) r) = (invalid (objects w r) \<or> True \<in> set ivs)"
  using assms
proof (induction ivs arbitrary: w)
  case Nil
  from Nil(1) show ?case by simp
next
  case (Cons iv ivs)
  let ?w = "snd (drawImage h w (Some r) iv)"
  note a = accepted_call[OF Cons(3-8), of h iv]
  show ?case
  proof (cases "ivs = []")
    case True
    from a(7) obtain j where j: "slot j el r ?w" "dirty_at j ?w" by blast
    have "invalid (objects ?w r) = (invalid (objects w r) \<or> True \<in> set (iv # ivs))"
      unfolding a(8) using True by simp
    with j a(6) True show ?thesis by (intro exI[of _ j]) simp
  next
    case False
    from Cons(1)[OF False a(1-6)] obtain j where j: "slot j el r (window h ?w r ivs)"
      "dirty_at j (window h ?w r ivs)" "tame r (window h ?w r ivs)"
      "invalid (objects (window h ?w r ivs) r) = (invalid (objects ?w r) \<or> True \<in> set ivs)"
      by blast
    have "invalid (objects (window h ?w r ivs) r) = (invalid (objects w r) \<or> True \<in> set (iv # ivs))"
      unfolding j(4) a(8) by (cases iv) simp_all
    with j(1-3) show ?thesis by (intro exI[of _ j]) simp
  qed
qed

text \<open>
  C1, as stated, fails. The flag that \<open>step\<close> passes to \<open>drawImageSync\<close> is the \<open>invalid\<close>
  field of the enabled element, which \<open>drawImage\<close> sets and never clears: on an enabled
  element whose field is already set when the window begins, a single call with
  \<open>invalidated = false\<close> is followed by a render with the flag \<open>true\<close>. The flag is also
  \<open>true\<close> after a single call with \<open>false\<close> when the callback of a surface visited earlier
  in the tick calls \<open>drawImage\<close> with \<open>true\<close> for it. And the requested surface is not
  rendered at all when the renderer throws for a surface visited before it, or when its
  element does not resolve.
\<close>

theorem flag_iff_counterexample:
  "renders_of 1 (since (window page stale 1 [False]) (snd (step page (window page stale 1 [False])))) = [True] \<and>
   True \<notin> set [False] \<and>
   renders_of 2 (since (window page meddled 2 [False]) (snd (step page (window page meddled 2 [False])))) = [True] \<and>
   renders_of 2 (since (window page requested 2 [False]) (snd (step faulty (window page requested 2 [False])))) = [] \<and>
   renders_of 1 (since (window page orphaned 1 [False]) (snd (step page (window page orphaned 1 [False])))) = []"
  by code_simp

text \<open>
  C1, amended. Take any non-empty sequence of \<open>drawImage\<close> calls on one enabled element that
  passes the guard, whose element resolves to it and is the only one that does. If the
  renderer does not throw and no registered callback (nor a callback that one of them
  registers) calls \<open>drawImage\<close> on that enabled element
  with \<open>invalidated = true\<close>, the next \<open>step\<close> calls \<open>drawImageSync\<close> for it exactly once, and
  the flag it passes is true iff some call of the sequence passed \<open>true\<close> or the \<open>invalid\<close>
  field was already set before the first call.
\<close>

theorem coalesced_render:
  assumes "ivs \<noteq> []" "well_formed w" "passes (objects w r)" "element (objects w r) = Some el"
    "resolves_only w el r" "tame r w" "sound h"
  shows "renders_of r (since (window h w r ivs) (snd (step h (window h w r ivs)))) =
           [invalid (objects w r) \<or> True \<in> set ivs]"
proof -
  let ?w = "window h w r ivs"
  have d: "distinct (map fst (elementsDrawMap w))" using assms(2) by (simp add: well_formed_def)
  have e: "enabled w el = Some r" and u: "\<forall>el'. el' \<noteq> el \<longrightarrow> enabled w el' \<noteq> Some r"
    using assms(5) by (simp_all add: resolves_only_def)
  from window_slot[OF assms(1) d assms(3,4) e u assms(6), of h] obtain j where
    j: "slot j el r ?w" "dirty_at j ?w" "tame r ?w"
       "invalid (objects ?w r) = (invalid (objects w r) \<or> True \<in> set ivs)" by blast
  from drain_before[OF assms(7) _ j(1-3), of 0]
  have "renders_of r (trace (snd (drain h 0 ?w))) = renders_of r (trace ?w) @ [invalid (objects ?w r)]"
    by simp
  then have "renders_of r (trace (snd (step h ?w))) = renders_of r (trace ?w) @ [invalid (objects ?w r)]"
    by (simp add: renders_of_step)
  from renders_of_since[OF grows_step this] j(4) show ?thesis by simp
qed

theorem coalesced_render_witness:
  "[False, True] \<noteq> [] \<and> well_formed start \<and> passes (objects start 1) \<and>
   element (objects start 1) = Some 1 \<and> resolves_only start 1 1 \<and> tame 1 start \<and> sound page \<and>
   renders_of 1 (since (window page start 1 [False, True]) (snd (step page (window page start 1 [False, True]))))
     = [True]"
proof -
  have a: "[False, True] \<noteq> []" "well_formed start" "passes (objects start 1)"
    "element (objects start 1) = Some 1" "resolves_only start 1 1" "tame 1 start" "sound page"
    by (simp_all add: well_formed_def start_def init_def surface_def passes_def resolves_only_def
        tame_def scripted_def cbs_def sound_def page_def)
  have "invalid (objects start 1) = False" by (simp add: start_def init_def surface_def)
  with coalesced_render[OF a] a show ?thesis by simp
qed

section \<open>Dirty entries and the pending frame\<close>

lemma marksI:
  assumes "t0 \<le> perfNow w \<Longrightarrow> t0 \<le> perfNow w'"
    and "t0 \<le> perfNow w \<Longrightarrow> fresh t0 w \<Longrightarrow> fresh t0 w'"
    and "\<And>j. t0 \<le> perfNow w \<Longrightarrow> dirty_at j w' \<Longrightarrow> dirty_at j w \<or> fresh t0 w'"
  shows "marks t0 w w'"
  using assms unfolding marks_def by blast

lemma marks_refl: "marks t0 w w"
  unfolding marks_def by blast

lemma marks_trans: "marks t0 a b \<Longrightarrow> marks t0 b c \<Longrightarrow> marks t0 a c"
  unfolding marks_def by blast

lemma marks_same:
  "perfNow w' = perfNow w \<Longrightarrow> rafStopTime w' = rafStopTime w \<Longrightarrow>
   elementsDrawMap w' = elementsDrawMap w \<Longrightarrow> marks t0 w w'"
  by (rule marksI) (simp_all add: fresh_def dirty_at_def)

lemma perfNow_registerVisibilityChange [simp]: "perfNow (registerVisibilityChange h w) = perfNow w"
  by (simp add: registerVisibilityChange_def Let_def split: option.splits)

lemma rafStopTime_registerVisibilityChange [simp]: "rafStopTime (registerVisibilityChange h w) = rafStopTime w"
  by (simp add: registerVisibilityChange_def Let_def split: option.splits)

lemma perfNow_schedule [simp]: "perfNow (schedule r iv w) = perfNow w"
  by (simp add: schedule_def Let_def requestAnimationFrame_def)

lemma rafStopTime_schedule [simp]: "rafStopTime (schedule r iv w) = Some (perfNow w + rafStopMaxTime)"
  by (simp add: schedule_def Let_def requestAnimationFrame_def)

lemma marks_schedule: "marks t0 w (schedule r iv w)"
  by (rule marksI) (simp_all add: fresh_def)

lemma marks_drawImage: "marks t0 w (snd (drawImage h w ee iv))"
proof -
  have a: "marks t0 w (registerVisibilityChange h w)" by (rule marks_same) simp_all
  from drawImage_cases[of h w ee iv] show ?thesis
  proof
    assume "snd (drawImage h w ee iv) = registerVisibilityChange h w"
    with a show ?thesis by simp
  next
    assume "\<exists>r. snd (drawImage h w ee iv) = schedule r iv (registerVisibilityChange h w)"
    then obtain r where r: "snd (drawImage h w ee iv) = schedule r iv (registerVisibilityChange h w)" by blast
    from marks_trans[OF a marks_schedule[of t0 "registerVisibilityChange h w" r iv]] r
    show ?thesis by simp
  qed
qed

lemma marks_elapse: "marks t0 w (elapse d w)"
  by (rule marksI) (simp_all add: fresh_def dirty_at_def elapse_def)

lemma marks_event: "marks t0 w (w\<lparr>trace := es\<rparr>)"
  by (rule marks_same) simp_all

lemma marks_paint: "marks t0 w (w\<lparr>objects := os\<rparr>)"
  by (rule marks_same) simp_all

lemma marks_extend: "marks t0 w (w\<lparr>rafStopTime := Some (perfNow w + rafStopMaxTime)\<rparr>)"
  by (rule marksI) (simp_all add: fresh_def dirty_at_def)

lemma marks_clear:
  "i < length (elementsDrawMap w) \<Longrightarrow> elementsDrawMap w ! i = (k, e) \<Longrightarrow>
   marks t0 w (w\<lparr>elementsDrawMap := (elementsDrawMap w)[i := (k, e\<lparr>needsRedraw := False\<rparr>)]\<rparr>)"
proof (rule marksI, goal_cases)
  case (3 j)
  then show ?case by (cases "i = j") (simp_all add: dirty_at_def)
qed (simp_all add: fresh_def)

lemma marks_visit:
  assumes "i < length (elementsDrawMap w)"
  shows "marks t0 w (snd (visit h i w))"
proof (rule visit_preorder[where R="marks t0"], goal_cases)
  case (1 w)
  show ?case by (rule marks_refl)
next
  case (2 a b c)
  then show ?case by (rule marks_trans)
next
  case (3 w ee iv)
  show ?case by (rule marks_drawImage)
next
  case (4 w k g)
  show ?case by (rule marksI) (simp_all add: fresh_def)
next
  case (5 w k g)
  show ?case by (rule marksI) (simp_all add: fresh_def)
next
  case (6 w d)
  show ?case by (rule marks_elapse)
next
  case (7 w f r')
  show ?case by (rule marks_event)
next
  case (8 w el' r' t)
  show ?case by (rule marks_event)
next
  case (9 w el' e r')
  show ?case by (rule marks_event)
next
  case (10 w el' e r' ob d)
  show ?case by (rule marks_paint)
next
  case (11 w el' e r')
  from 11(1,2) show ?case by (rule marks_clear)
next
  case (12 w)
  show ?case by (rule marks_extend)
next
  case 13
  show ?case by (rule assms(1))
qed

lemma sane_refl: "sane w w"
  by (simp add: sane_def)

lemma sane_trans: "sane a b \<Longrightarrow> sane b c \<Longrightarrow> sane a c"
  unfolding sane_def by blast

lemma known_enabled: "enabled w' = enabled w \<Longrightarrow> known w' = known w"
  by (auto simp: known_def fun_eq_iff split: option.splits)

lemma sane_same:
  assumes "elementsDrawMap w' = elementsDrawMap w" "enabled w' = enabled w"
    "\<And>r. element (objects w' r) = element (objects w r)"
  shows "sane w w'"
proof -
  have k: "known w' = known w" using assms(2) by (rule known_enabled)
  have "all_enabled w' = all_enabled w" by (simp add: all_enabled_def k assms(3))
  moreover have "resolving w' = resolving w" by (simp add: resolving_def k assms(1))
  ultimately show ?thesis by (simp add: sane_def)
qed

lemma resolving_ensure:
  "list_all P m \<Longrightarrow> P (k, \<lparr>needsRedraw = False, callbacks = []\<rparr>) \<Longrightarrow> list_all P (ensure k m)"
  by (simp add: ensure_def)

lemma list_all_modify_key:
  assumes "list_all (\<lambda>(k', e). needsRedraw e \<longrightarrow> Q k') m" "Q k"
  shows "list_all (\<lambda>(k', e). needsRedraw e \<longrightarrow> Q k') (modify k f m)"
  using assms by (induction m) auto

lemma sane_addDrawCallback: "sane w (addDrawCallback w k g)"
proof -
  have kn: "known (addDrawCallback w k g) = known w" by (rule known_enabled) simp
  have "all_enabled (addDrawCallback w k g) = all_enabled w" by (simp add: all_enabled_def kn)
  moreover have "resolving w \<Longrightarrow> resolving (addDrawCallback w k g)"
    by (simp add: resolving_flags kn flags_addDrawCallback)
  ultimately show ?thesis by (simp add: sane_def)
qed

lemma sane_removeDrawCallback: "sane w (removeDrawCallback w k g)"
proof -
  have kn: "known (removeDrawCallback w k g) = known w" by (rule known_enabled) simp
  have "all_enabled (removeDrawCallback w k g) = all_enabled w" by (simp add: all_enabled_def kn)
  moreover have "resolving (removeDrawCallback w k g) = resolving w"
    by (simp add: resolving_flags kn flags_removeDrawCallback)
  ultimately show ?thesis by (simp add: sane_def)
qed

lemma resolving_schedule:
  assumes "all_enabled w" "resolving w"
  shows "resolving (schedule r iv w)"
proof -
  let ?k = "element (objects w r)"
  let ?P = "\<lambda>(k, e). needsRedraw e \<longrightarrow> known w k"
  from assms(1) have k: "known w ?k"
    unfolding all_enabled_def by blast
  have "list_all ?P (ensure ?k (elementsDrawMap w))"
    using assms(2) by (intro resolving_ensure) (simp_all add: resolving_def)
  then have "list_all ?P (modify ?k (\<lambda>e. e\<lparr>needsRedraw := True\<rparr>) (ensure ?k (elementsDrawMap w)))"
    using k by (rule list_all_modify_key)
  moreover have "known (schedule r iv w) = known w" by (rule known_enabled) simp
  ultimately show ?thesis by (simp add: resolving_def elementsDrawMap_schedule)
qed

lemma all_enabled_schedule: "all_enabled w \<Longrightarrow> all_enabled (schedule r iv w)"
proof -
  have "known (schedule r iv w) = known w" by (rule known_enabled) simp
  then show "all_enabled w \<Longrightarrow> all_enabled (schedule r iv w)"
    by (simp add: all_enabled_def objects_schedule)
qed

lemma sane_schedule: "sane w (schedule r iv w)"
  unfolding sane_def using resolving_schedule all_enabled_schedule by blast

lemma sane_drawImage: "sane w (snd (drawImage h w ee iv))"
proof -
  have a: "sane w (registerVisibilityChange h w)" by (rule sane_same) simp_all
  from drawImage_cases[of h w ee iv] show ?thesis
  proof
    assume "snd (drawImage h w ee iv) = registerVisibilityChange h w"
    with a show ?thesis by simp
  next
    assume "\<exists>r. snd (drawImage h w ee iv) = schedule r iv (registerVisibilityChange h w)"
    then obtain r where r: "snd (drawImage h w ee iv) = schedule r iv (registerVisibilityChange h w)" by blast
    from sane_trans[OF a sane_schedule[of "registerVisibilityChange h w" r iv]] r
    show ?thesis by simp
  qed
qed

lemma sane_paint:
  assumes "faithful h" "drawImageSync h (objects w r) f = Some (ob, d)"
  shows "sane w (w\<lparr>objects := (objects w)(r := ob)\<rparr>)"
proof (rule sane_same)
  fix r'
  from assms have "element ob = element (objects w r)" unfolding faithful_def by blast
  then show "element (objects (w\<lparr>objects := (objects w)(r := ob)\<rparr>) r') = element (objects w r')"
    by simp
qed simp_all

lemma sane_clear:
  assumes "i < length (elementsDrawMap w)" "elementsDrawMap w ! i = (k, e)"
  shows "sane w (w\<lparr>elementsDrawMap := (elementsDrawMap w)[i := (k, e\<lparr>needsRedraw := False\<rparr>)]\<rparr>)"
proof -
  let ?w = "w\<lparr>elementsDrawMap := (elementsDrawMap w)[i := (k, e\<lparr>needsRedraw := False\<rparr>)]\<rparr>"
  have kn: "known ?w = known w" by (rule known_enabled) simp
  have "resolving ?w" if "resolving w"
    using that assms(1) unfolding resolving_def list_all_length kn
    by (simp add: nth_list_update)
  moreover have "all_enabled ?w = all_enabled w" by (simp add: all_enabled_def kn)
  ultimately show ?thesis by (simp add: sane_def)
qed

lemma sane_visit:
  assumes "i < length (elementsDrawMap w)" "faithful h"
  shows "sane w (snd (visit h i w))"
proof (rule visit_preorder[where R=sane], goal_cases)
  case (1 w)
  show ?case by (rule sane_refl)
next
  case (2 a b c)
  then show ?case by (rule sane_trans)
next
  case (3 w ee iv)
  show ?case by (rule sane_drawImage)
next
  case (4 w k g)
  show ?case by (rule sane_addDrawCallback)
next
  case (5 w k g)
  show ?case by (rule sane_removeDrawCallback)
next
  case (6 w d)
  show ?case by (rule sane_same) (simp_all add: elapse_def)
next
  case (7 w f r')
  show ?case by (rule sane_same) simp_all
next
  case (8 w el' r' t)
  show ?case by (rule sane_same) simp_all
next
  case (9 w el' e r')
  show ?case by (rule sane_same) simp_all
next
  case (10 w el' e r' ob d)
  from assms(2) 10(5) show ?case by (rule sane_paint)
next
  case (11 w el' e r')
  from 11(1,2) show ?case by (rule sane_clear)
next
  case (12 w)
  show ?case by (rule sane_same) simp_all
next
  case 13
  show ?case by (rule assms(1))
qed

lemma resolving_entry:
  assumes "resolving w" "i < length (elementsDrawMap w)" "elementsDrawMap w ! i = (k, e)" "needsRedraw e"
  obtains el r where "k = Some el" "enabled w el = Some r"
proof -
  from assms have "known w k" unfolding resolving_def list_all_length by fastforce
  then show ?thesis using that by (auto simp: known_def split: option.splits)
qed

lemma visit_clears:
  assumes "sound h" "resolving w" "i < length (elementsDrawMap w)" "t0 \<le> perfNow w"
  shows "dirty_at i (snd (visit h i w)) \<longrightarrow> fresh t0 (snd (visit h i w))"
proof (cases "dirty_at i w")
  case False
  with marks_visit[OF assms(3), of t0 h] assms(4) show ?thesis unfolding marks_def by blast
next
  case True
  obtain k e where ke: "elementsDrawMap w ! i = (k, e)" by (cases "elementsDrawMap w ! i")
  with True have n: "needsRedraw e" by (simp add: dirty_at_def)
  from resolving_entry[OF assms(2,3) ke n] obtain el r where
    k: "k = Some el" and en: "enabled w el = Some r" by blast
  obtain ob d where od: "drawImageSync h (objects w r) (invalid (objects w r)) = Some (ob, d)"
    using assms(1) unfolding sound_def by (metis option.exhaust surj_pair)
  note v = visit_rendered[OF ke[unfolded k] n en od]
  show ?thesis
  proof (cases "set_size (callbacks e) = 0")
    case True
    then have "snd (visit h i w) = after_render i el e r ob d w" by (simp add: v)
    moreover have "\<not> dirty_at i (after_render i el e r ob d w)"
      using assms(3) by (simp add: dirty_at_def after_render_def elapse_def)
    ultimately show ?thesis by simp
  next
    case False
    define w5 where "w5 = forEach_callbacks h i r 0 (after_render i el e r ob d w)"
    from False have s: "snd (visit h i w) = w5\<lparr>rafStopTime := Some (perfNow w5 + rafStopMaxTime)\<rparr>"
      by (simp add: v w5_def Let_def)
    from marks_visit[OF assms(3), of t0 h] assms(4) have "t0 \<le> perfNow (snd (visit h i w))"
      unfolding marks_def by blast
    then have "t0 \<le> perfNow w5" by (simp add: s)
    then have "fresh t0 (snd (visit h i w))" by (simp add: s fresh_def)
    then show ?thesis by simp
  qed
qed

lemma drain_marks:
  assumes "sound h" "faithful h"
  shows "t0 \<le> perfNow w \<Longrightarrow> all_enabled w \<Longrightarrow> resolving w \<Longrightarrow>
         (\<forall>j. dirty_at j w \<longrightarrow> i \<le> j \<or> fresh t0 w) \<Longrightarrow>
         (\<forall>j. dirty_at j (snd (drain h i w)) \<longrightarrow> fresh t0 (snd (drain h i w))) \<and>
         all_enabled (snd (drain h i w)) \<and> resolving (snd (drain h i w)) \<and>
         t0 \<le> perfNow (snd (drain h i w))"
proof (induction "potential i w" arbitrary: i w rule: less_induct)
  case less
  show ?case
  proof (cases "i < length (elementsDrawMap w)")
    case False
    then have d: "drain h i w = (None, w)" by (subst drain.simps) simp
    have "fresh t0 w" if "dirty_at j w" for j
    proof -
      from that False have "\<not> i \<le> j" by (simp add: dirty_at_def)
      with less(5) that show ?thesis by blast
    qed
    with less(2,3,4) d show ?thesis by simp
  next
    case True
    let ?w = "snd (visit h i w)"
    note m = marks_visit[OF True, of t0 h]
    from m less(2) have t: "t0 \<le> perfNow ?w" unfolding marks_def by blast
    from sane_visit[OF True assms(2)] less(3,4) have s: "all_enabled ?w" "resolving ?w"
      unfolding sane_def by blast+
    have c: "dirty_at j ?w \<longrightarrow> Suc i \<le> j \<or> fresh t0 ?w" for j
    proof
      assume dj: "dirty_at j ?w"
      show "Suc i \<le> j \<or> fresh t0 ?w"
      proof (cases "j = i")
        case True
        with dj visit_clears[OF assms(1) less(4) \<open>i < length (elementsDrawMap w)\<close> less(2)]
        show ?thesis by blast
      next
        case False
        from m less(2) dj have "dirty_at j w \<or> fresh t0 ?w" unfolding marks_def by blast
        then show ?thesis
        proof
          assume "dirty_at j w"
          with less(5) have "i \<le> j \<or> fresh t0 w" by blast
          then show ?thesis
          proof
            assume "i \<le> j"
            with False show ?thesis by simp
          next
            assume "fresh t0 w"
            with m less(2) show ?thesis unfolding marks_def by blast
          qed
        qed simp
      qed
    qed
    have p: "potential (Suc i) ?w < potential i w" by (rule potential_visit[OF True])
    have d: "drain h i w = drain h (Suc i) ?w"
      by (rule drain_step[OF True sound_visit[OF assms(1) True]])
    from less(1)[OF p t s] c show ?thesis unfolding d by blast
  qed
qed

lemma idle_iff: "idle w \<longleftrightarrow> (\<forall>j. \<not> dirty_at j w)"
  by (auto simp: idle_def dirty_at_def list_all_length case_prod_unfold)

lemma consistent_arm:
  assumes "frames w = []"
  shows "consistent ((snd (requestAnimationFrame w))\<lparr>rafId := Some (fst (requestAnimationFrame w))\<rparr>)"
  using assms by (simp add: consistent_def requestAnimationFrame_def Let_def)

lemma consistent_schedule:
  assumes "consistent w"
  shows "consistent (schedule r iv w) \<and> rafId (schedule r iv w) \<noteq> None"
proof (cases "rafId w")
  case None
  with assms have "frames w = []" by (simp add: consistent_def)
  with None show ?thesis
    by (simp add: schedule_def Let_def consistent_def requestAnimationFrame_def)
next
  case (Some x)
  with assms have "x \<noteq> 0" "frames w = [x]" by (simp_all add: consistent_def)
  with Some show ?thesis by (simp add: schedule_def Let_def consistent_def)
qed

lemma consistent_registerVisibilityChange [simp]:
  "consistent (registerVisibilityChange h w) = consistent w"
  by (simp add: consistent_def registerVisibilityChange_def Let_def split: option.splits)

lemma idle_registerVisibilityChange [simp]: "idle (registerVisibilityChange h w) = idle w"
  by (simp add: idle_def)

lemma healthy_draw:
  assumes "healthy w"
  shows "healthy (snd (drawImage h w ee iv))"
proof -
  let ?v = "registerVisibilityChange h w"
  from assms have c: "consistent w" and i: "idle w \<or> rafId w \<noteq> None"
    and s: "all_enabled w" "resolving w" by (simp_all add: healthy_def)
  from sane_drawImage[of w h ee iv] s
  have s': "all_enabled (snd (drawImage h w ee iv))" "resolving (snd (drawImage h w ee iv))"
    unfolding sane_def by blast+
  from drawImage_cases[of h w ee iv] show ?thesis
  proof
    assume e: "snd (drawImage h w ee iv) = ?v"
    with c i s' show ?thesis by (simp add: healthy_def)
  next
    assume "\<exists>r. snd (drawImage h w ee iv) = schedule r iv ?v"
    then obtain r where e: "snd (drawImage h w ee iv) = schedule r iv ?v" by blast
    from consistent_schedule[of ?v r iv] c s' e show ?thesis by (simp add: healthy_def)
  qed
qed

lemma healthy_same:
  assumes "healthy w" "rafId w' = rafId w" "frames w' = frames w" "enabled w' = enabled w"
    "objects w' = objects w" "elementsDrawMap w' = elementsDrawMap w"
  shows "healthy w'"
proof -
  have "known w' = known w" using assms(4) by (rule known_enabled)
  then have "all_enabled w' = all_enabled w" "resolving w' = resolving w"
    by (simp_all add: all_enabled_def resolving_def assms(5,6))
  moreover have "consistent w' = consistent w" "idle w' = idle w"
    by (simp_all add: consistent_def idle_def assms(2,3,6) split: option.splits)
  ultimately show ?thesis using assms(1,2) by (simp add: healthy_def)
qed

lemma healthy_pass: "healthy w \<Longrightarrow> healthy (elapse d w)"
  by (erule healthy_same) (simp_all add: elapse_def)

lemma healthy_flags:
  assumes "healthy w" "rafId w' = rafId w" "frames w' = frames w" "enabled w' = enabled w"
    "objects w' = objects w"
    "list_all (\<lambda>(k, e). needsRedraw e \<longrightarrow> known w k) (elementsDrawMap w')"
    "idle w \<Longrightarrow> idle w'"
  shows "healthy w'"
proof -
  have k: "known w' = known w" using assms(4) by (rule known_enabled)
  then have "all_enabled w' = all_enabled w"
    by (simp add: all_enabled_def assms(5))
  moreover have "resolving w'" by (simp add: resolving_def k assms(6))
  moreover have "consistent w' = consistent w"
    by (simp add: consistent_def assms(2,3) split: option.splits)
  ultimately show ?thesis using assms(1,2,7) by (auto simp: healthy_def)
qed

lemma healthy_register: "healthy w \<Longrightarrow> healthy (addDrawCallback w el f)"
proof (cases "el = None")
  case True
  then show "healthy w \<Longrightarrow> healthy (addDrawCallback w el f)" by (simp add: addDrawCallback_def)
next
  case False
  assume hw: "healthy w"
  let ?m = "modify el (\<lambda>e. e\<lparr>callbacks := set_add f (callbacks e)\<rparr>) (ensure el (elementsDrawMap w))"
  have m: "elementsDrawMap (addDrawCallback w el f) = ?m"
    using False by (cases el) (simp_all add: addDrawCallback_def Let_def)
  have a: "list_all (\<lambda>(k, e). needsRedraw e \<longrightarrow> known w k) ?m"
    using hw by (intro list_all_modify_callbacks[where P="\<lambda>k b. b \<longrightarrow> known w k"] resolving_ensure)
      (simp_all add: healthy_def resolving_def)
  have b: "list_all (\<lambda>(k, e). \<not> needsRedraw e) ?m" if "idle w"
    using that by (intro list_all_modify_callbacks[where P="\<lambda>k b. \<not> b"] resolving_ensure)
      (simp_all add: idle_def)
  show "healthy (addDrawCallback w el f)"
  proof (rule healthy_flags[OF hw])
    show "list_all (\<lambda>(k, e). needsRedraw e \<longrightarrow> known w k) (elementsDrawMap (addDrawCallback w el f))"
      unfolding m by (rule a)
    show "idle (addDrawCallback w el f)" if "idle w"
      unfolding idle_def m using that by (rule b)
  qed (simp_all add: addDrawCallback_def Let_def)
qed

lemma healthy_unregister: "healthy w \<Longrightarrow> healthy (removeDrawCallback w el f)"
proof (cases "el = None \<or> get (elementsDrawMap w) el = None")
  case True
  then show "healthy w \<Longrightarrow> healthy (removeDrawCallback w el f)"
    by (auto simp: removeDrawCallback_def)
next
  case False
  assume hw: "healthy w"
  let ?m = "modify el (\<lambda>e. e\<lparr>callbacks := set_delete f (callbacks e)\<rparr>) (elementsDrawMap w)"
  have m: "elementsDrawMap (removeDrawCallback w el f) = ?m"
    using False by (cases el) (auto simp: removeDrawCallback_def)
  have a: "list_all (\<lambda>(k, e). needsRedraw e \<longrightarrow> known w k) ?m"
    using hw by (intro list_all_modify_callbacks[where P="\<lambda>k b. b \<longrightarrow> known w k"])
      (simp_all add: healthy_def resolving_def)
  have b: "list_all (\<lambda>(k, e). \<not> needsRedraw e) ?m" if "idle w"
    using that by (intro list_all_modify_callbacks[where P="\<lambda>k b. \<not> b"])
      (simp_all add: idle_def)
  show "healthy (removeDrawCallback w el f)"
  proof (rule healthy_flags[OF hw])
    show "list_all (\<lambda>(k, e). needsRedraw e \<longrightarrow> known w k) (elementsDrawMap (removeDrawCallback w el f))"
      unfolding m by (rule a)
    show "idle (removeDrawCallback w el f)" if "idle w"
      unfolding idle_def m using that by (rule b)
  qed (simp_all add: removeDrawCallback_def split: option.splits)
qed

lemma stopRaf_consistent:
  assumes "consistent w"
  shows "frames (stopRaf w) = []" "rafId (stopRaf w) = None"
proof -
  show "rafId (stopRaf w) = None" by (simp add: stopRaf_def)
  show "frames (stopRaf w) = []"
  proof (cases "rafId w")
    case None
    with assms show ?thesis by (simp add: consistent_def stopRaf_def)
  next
    case (Some x)
    with assms have "x \<noteq> 0" "frames w = [x]" by (simp_all add: consistent_def)
    with Some show ?thesis by (simp add: stopRaf_def cancelAnimationFrame_def)
  qed
qed

lemma healthy_fields:
  assumes "all_enabled w" "resolving w" "enabled w' = enabled w" "objects w' = objects w"
    "elementsDrawMap w' = elementsDrawMap w" "consistent w'" "idle w \<or> rafId w' \<noteq> None"
  shows "healthy w'"
proof -
  have "known w' = known w" using assms(3) by (rule known_enabled)
  then have "all_enabled w'" "resolving w'"
    using assms(1,2) by (simp_all add: all_enabled_def resolving_def assms(4,5))
  moreover have "idle w' = idle w" by (simp add: idle_def assms(5))
  ultimately show ?thesis using assms(6,7) by (simp add: healthy_def)
qed

lemma healthy_shown:
  assumes "healthy w"
  shows "healthy (onVisibilityChange False w)"
proof -
  let ?s = "(stopRaf w)\<lparr>rafStopTime := Some (perfNow (stopRaf w) + rafStopMaxTime)\<rparr>"
  have e: "onVisibilityChange False w = (snd (requestAnimationFrame ?s))\<lparr>rafId := Some (fst (requestAnimationFrame ?s))\<rparr>"
    by (simp add: onVisibilityChange_def Let_def case_prod_unfold)
  from assms have c: "consistent w" by (simp add: healthy_def)
  have "frames ?s = []" using stopRaf_consistent(1)[OF c] by simp
  from consistent_arm[OF this] have "consistent (onVisibilityChange False w)" by (simp add: e)
  moreover have "rafId (onVisibilityChange False w) \<noteq> None" by (simp add: e)
  ultimately show ?thesis using assms
    by (intro healthy_fields[of w])
       (simp_all add: healthy_def e requestAnimationFrame_def stopRaf_def cancelAnimationFrame_def Let_def)
qed

lemma ahead_fresh:
  assumes "fresh t0 w" "perfNow w < t0 + rafStopMaxTime"
  shows "ahead w"
  using assms by (auto simp: fresh_def ahead_def split: option.splits)

lemma healthy_frame:
  assumes "sound h" "faithful h" "healthy w" "fire h w = Some (None, w')"
    "perfNow w' < perfNow w + rafStopMaxTime"
  shows "healthy w'"
proof -
  from assms(3) have c: "consistent w" and ae: "all_enabled w" and re: "resolving w"
    by (simp_all add: healthy_def)
  from assms(4) obtain x fs where fr: "frames w = x # fs" and st: "step h (w\<lparr>frames := fs\<rparr>) = (None, w')"
    by (auto simp: fire_def split: list.splits)
  from c fr have x: "rafId w = Some x" "x \<noteq> 0" "fs = []"
    by (auto simp: consistent_def split: option.splits)
  define w0 where "w0 = w\<lparr>frames := []\<rparr>"
  define w1 where "w1 = snd (drain h 0 w0)"
  have st0: "step h w0 = (None, w')" using st x(3) by (simp add: w0_def)
  have "fst (drain h 0 w0) = None"
    using st0 by (auto simp: step_def split: prod.splits option.splits)
  then have d: "drain h 0 w0 = (None, w1)" by (simp add: w1_def prod_eq_iff)
  have w': "w' = (if ahead w1 then (snd (requestAnimationFrame w1))\<lparr>rafId := Some (Suc (lastHandle w1))\<rparr>
                  else stopRaf w1)"
    using step_end[OF d] st0 by simp
  have "truthy (rafId w0)" using x by (simp add: w0_def)
  with quiet_drain[of w0 h 0] have q: "rafId w1 = Some x" "frames w1 = []"
    using x by (simp_all add: quiet_def w1_def w0_def)
  have k0: "known w0 = known w" by (rule known_enabled) (simp add: w0_def)
  have s0: "all_enabled w0" "resolving w0"
    using ae re by (simp_all add: all_enabled_def resolving_def k0, simp_all add: w0_def)
  have "\<forall>j. dirty_at j w0 \<longrightarrow> 0 \<le> j \<or> fresh (perfNow w0) w0" by simp
  from drain_marks[where ?t0.0="perfNow w0" and w=w0 and i=0, OF assms(1,2) le_refl s0 this]
  have m: "\<forall>j. dirty_at j w1 \<longrightarrow> fresh (perfNow w0) w1" "all_enabled w1" "resolving w1"
    unfolding w1_def by simp_all
  show ?thesis
  proof (cases "ahead w1")
    case True
    then have e: "w' = (snd (requestAnimationFrame w1))\<lparr>rafId := Some (fst (requestAnimationFrame w1))\<rparr>"
      by (simp add: w' requestAnimationFrame_def Let_def)
    from consistent_arm[OF q(2)] have "consistent w'" by (simp add: e)
    moreover have "rafId w' \<noteq> None" by (simp add: e)
    ultimately show ?thesis using m(2,3)
      by (intro healthy_fields[of w1]) (simp_all add: e requestAnimationFrame_def Let_def)
  next
    case False
    then have e: "w' = stopRaf w1" by (simp add: w')
    have "perfNow (stopRaf w1) = perfNow w1"
      by (simp add: stopRaf_def cancelAnimationFrame_def Let_def)
    with assms(5) have p: "perfNow w1 < perfNow w0 + rafStopMaxTime"
      by (simp add: e w0_def)
    have "idle w1"
      unfolding idle_iff
    proof (intro allI notI)
      fix j assume "dirty_at j w1"
      with m(1) have "fresh (perfNow w0) w1" by blast
      from ahead_fresh[OF this p] False show False by simp
    qed
    moreover have "consistent w'"
      using q by (simp add: e consistent_def stopRaf_def cancelAnimationFrame_def)
    ultimately show ?thesis using m(2,3)
      by (intro healthy_fields[of w1]) (simp_all add: e stopRaf_def cancelAnimationFrame_def Let_def)
  qed
qed

lemma healthy_act:
  assumes "sound h" "faithful h" "healthy w" "act h a w = Some w'"
  shows "healthy w'"
proof (cases a)
  case (Draw ee iv)
  with assms(3,4) healthy_draw[of w h ee iv] show ?thesis by simp
next
  case (Register el f)
  with assms(3,4) healthy_register[of w el f] show ?thesis by simp
next
  case (Unregister el f)
  with assms(3,4) healthy_unregister[of w el f] show ?thesis by simp
next
  case (Pass d)
  with assms(3,4) healthy_pass[of w d] show ?thesis by simp
next
  case Shown
  with assms(3,4) healthy_shown[of w] show ?thesis by (simp split: if_splits)
next
  case Frame
  with assms(4) have "fire h w = Some (None, w')" "perfNow w' < perfNow w + rafStopMaxTime"
    by (auto split: option.splits prod.splits if_splits)
  from healthy_frame[OF assms(1,2,3) this] show ?thesis .
qed

lemma healthy_run:
  assumes "sound h" "faithful h"
  shows "healthy w \<Longrightarrow> run h as w = Some w' \<Longrightarrow> healthy w'"
proof (induction as arbitrary: w)
  case Nil
  then show ?case by simp
next
  case (Cons a as)
  from Cons(3) obtain v where v: "act h a w = Some v" "run h as v = Some w'"
    by (auto split: option.splits)
  from healthy_act[OF assms Cons(2) v(1)] have "healthy v" .
  from Cons(1)[OF this v(2)] show ?case .
qed

lemma healthy_init: "all_enabled (init os en) \<Longrightarrow> healthy (init os en)"
  by (simp add: healthy_def consistent_def resolving_def idle_def init_def)

text \<open>
  C5, as stated, fails: not every reachable state with a dirty entry has \<open>rafId\<close> set. When
  the page becomes hidden the listener calls \<open>stopRaf\<close> whatever is dirty: after
  \<open>drawImage(e1)\<close> and the page becoming hidden, the entry is dirty and \<open>rafId\<close> is \<open>null\<close>.
  The same state is reached without the page being hidden by a tick that runs after the
  idle deadline and skips an entry whose element does not resolve, and by a tick in which a
  callback marks an entry again and the rendering of a later surface then lasts beyond the
  deadline.
\<close>

theorem hidden_unschedules_counterexample:
  "listeners requested = [''visibilitychange''] \<and>
   needsRedraw (snd (elementsDrawMap (onVisibilityChange True requested) ! 0)) \<and>
   rafId (onVisibilityChange True requested) = None \<and>
   fst (the (fire page (elapse 150 orphaned))) = None \<and>
   needsRedraw (snd (elementsDrawMap (snd (the (fire page (elapse 150 orphaned)))) ! 0)) \<and>
   rafId (snd (the (fire page (elapse 150 orphaned)))) = None \<and>
   fst (the (fire slow crowded)) = None \<and>
   needsRedraw (snd (elementsDrawMap (snd (the (fire slow crowded))) ! 0)) \<and>
   rafId (snd (the (fire slow crowded))) = None"
  by code_simp

text \<open>
  C5, amended. Start from the initial state, where every enabled element belongs to an
  element that resolves, and let the module go through any sequence of \<open>drawImage\<close> calls
  (accepted or not), registrations and removals of callbacks, time passing, the page
  becoming visible, and ticks that end less than \<open>rafStopMaxTime\<close> after they began, with a
  renderer that does not throw and leaves \<open>element\<close> alone. In every state reached this way,
  whenever an entry is dirty, \<open>rafId\<close> is not \<open>null\<close> and is the handle of the one pending
  animation frame.
\<close>

theorem dirty_is_scheduled:
  assumes "sound h" "faithful h" "all_enabled (init os en)" "run h as (init os en) = Some w"
  shows "\<forall>k e. (k, e) \<in> set (elementsDrawMap w) \<and> needsRedraw e \<longrightarrow>
           rafId w \<noteq> None \<and> frames w = [the (rafId w)]"
proof -
  from healthy_run[OF assms(1,2) healthy_init[OF assms(3)] assms(4)]
  have h: "consistent w" "idle w \<or> rafId w \<noteq> None" by (simp_all add: healthy_def)
  show ?thesis
  proof (intro allI impI)
    fix k e assume "(k, e) \<in> set (elementsDrawMap w) \<and> needsRedraw e"
    then have "\<not> idle w" by (auto simp: idle_def list_all_iff)
    with h(2) have "rafId w \<noteq> None" by simp
    with h(1) show "rafId w \<noteq> None \<and> frames w = [the (rafId w)]"
      by (auto simp: consistent_def)
  qed
qed

theorem dirty_is_scheduled_witness:
  "sound page \<and> faithful page \<and> all_enabled (init surface Some) \<and>
   run page history (init surface Some) = Some busy \<and>
   (Some 1, \<lparr>needsRedraw = True, callbacks = [Some redrawer]\<rparr>) \<in> set (elementsDrawMap busy) \<and>
   needsRedraw \<lparr>needsRedraw = True, callbacks = [Some redrawer]\<rparr> \<and>
   rafId busy \<noteq> None \<and> frames busy = [the (rafId busy)] \<and> rafId busy = Some 3"
proof -
  have a: "sound page" "faithful page" "all_enabled (init surface Some)"
    by (simp_all add: sound_def faithful_def page_def all_enabled_def known_def init_def surface_def)
  have "run page history start \<noteq> None" by code_simp
  then have r: "run page history (init surface Some) = Some busy"
    by (auto simp: busy_def start_def)
  have m: "elementsDrawMap busy = [(Some 1, \<lparr>needsRedraw = True, callbacks = [Some redrawer]\<rparr>)]"
    unfolding busy_def by code_simp
  have i: "rafId busy = Some 3" unfolding busy_def by code_simp
  have d: "(Some 1, \<lparr>needsRedraw = True, callbacks = [Some redrawer]\<rparr>) \<in> set (elementsDrawMap busy) \<and>
     needsRedraw \<lparr>needsRedraw = True, callbacks = [Some redrawer]\<rparr>"
    by (simp add: m)
  from dirty_is_scheduled[OF a r] d
  have "rafId busy \<noteq> None \<and> frames busy = [the (rafId busy)]" by blast
  with a r d i show ?thesis by blast
qed

end
